theory Spec2Isabelle
  imports Main "HOL-Library.Sublist" "HOL-Library.Multiset"
begin

section \<open>Values shared by the whole mapper\<close>

text \<open>
  The development embeds \<^verbatim>\<open>lib/classes-map.ts\<close>. Strings are \<^typ>\<open>string\<close>, one
  \<^typ>\<open>char\<close> per code unit. A method of the class \<^verbatim>\<open>ClassesMap\<close> takes the object
  as its first argument \<open>this\<close> and returns it updated when it writes a member. Every
  \<^verbatim>\<open>throw\<close>, failed assertion and abort of the source is a value of \<open>error\<close>.
\<close>

datatype error =
    Error string \<comment> \<open>\<^verbatim>\<open>throw new Error(msg)\<close>\<close>
  | TypeError \<comment> \<open>a property read on \<^verbatim>\<open>undefined\<close> or \<^verbatim>\<open>null\<close>\<close>
  | AssertionError \<comment> \<open>\<^verbatim>\<open>assert.ok\<close> on a false value\<close>
  | Abort \<comment> \<open>\<^verbatim>\<open>stackTrace\<close>: \<^verbatim>\<open>console.trace\<close>, then \<^verbatim>\<open>process.abort()\<close>\<close>
  | NotAString string \<comment> \<open>a dictionary read that yields an inherited (non-string) property\<close>
  | Unmodelled string \<comment> \<open>a pattern source outside the modelled fragment of RegExp\<close>
  | OutOfFuel \<comment> \<open>the recursion or loop bound of the model is used up\<close>

definition bindE :: "error + 'a \<Rightarrow> ('a \<Rightarrow> error + 'b) \<Rightarrow> error + 'b" where
  "bindE m f = (case m of Inl e \<Rightarrow> Inl e | Inr x \<Rightarrow> f x)"

fun mapE :: "('a \<Rightarrow> error + 'b) \<Rightarrow> 'a list \<Rightarrow> error + 'b list" where
  "mapE f [] = Inr []"
| "mapE f (x # xs) = bindE (f x) (\<lambda>y. bindE (mapE f xs) (\<lambda>ys. Inr (y # ys)))"

text \<open>\<^verbatim>\<open>_.map(xs, f)\<close> for an \<open>f\<close> that reads and writes the object.\<close>

fun mapState :: "('s \<Rightarrow> 'a \<Rightarrow> error + ('b \<times> 's)) \<Rightarrow> 's \<Rightarrow> 'a list \<Rightarrow> error + ('b list \<times> 's)" where
  "mapState f s [] = Inr ([], s)"
| "mapState f s (x # xs) =
     bindE (f s x) (\<lambda>(y, s'). bindE (mapState f s' xs) (\<lambda>(ys, s''). Inr (y # ys, s'')))"

subsection \<open>Character classes\<close>

definition bs :: char where
  "bs = CHR 0x5C"

definition isDigit :: "char \<Rightarrow> bool" where
  "isDigit c = (c \<in> set ''0123456789'')"

text \<open>\<^verbatim>\<open>\w\<close>: letters, digits and the underscore.\<close>

definition isWordChar :: "char \<Rightarrow> bool" where
  "isWordChar c =
     (c \<in> set ''abcdefghijklmnopqrstuvwxyzABCDEFGHIJKLMNOPQRSTUVWXYZ0123456789_'')"

text \<open>The characters that \<^verbatim>\<open>.\<close> does not match (among the 8-bit ones).\<close>

definition isLineTerminator :: "char \<Rightarrow> bool" where
  "isLineTerminator c = (c = CHR 0x0A \<or> c = CHR 0x0D)"

subsection \<open>Dictionary literals and the \<^verbatim>\<open>in\<close> operator\<close>

text \<open>
  \<^verbatim>\<open>key in dict\<close> is also true for the properties every object inherits from
  \<^verbatim>\<open>Object.prototype\<close>, and reading one of them yields a function, not a string.
\<close>

definition objectPrototypeKeys :: "string list" where
  "objectPrototypeKeys =
     [''constructor'', ''toString'', ''toLocaleString'', ''valueOf'', ''hasOwnProperty'',
      ''isPrototypeOf'', ''propertyIsEnumerable'', ''__proto__'', ''__defineGetter__'',
      ''__defineSetter__'', ''__lookupGetter__'', ''__lookupSetter__'']"

text \<open>\<^verbatim>\<open>if (typeName in dict) { typeName = dict[typeName]; }\<close>\<close>

definition replaceIfIn :: "(string \<times> string) list \<Rightarrow> string \<Rightarrow> error + string" where
  "replaceIfIn dict typeName =
     (case map_of dict typeName of
        Some v \<Rightarrow> Inr v
      | None \<Rightarrow> if typeName \<in> set objectPrototypeKeys then Inl (NotAString typeName)
                else Inr typeName)"

section \<open>Regular expressions\<close>

text \<open>
  The fragment of the RegExp syntax that the mapper's patterns without capture groups
  use: literal characters, the anchors and a character class repeated once or more.
  No pattern has a flag, so \<^verbatim>\<open>^\<close> and \<^verbatim>\<open>$\<close> match at the two ends of the input only.
\<close>

datatype cclass = WordClass | WordDollarClass | DigitClass

datatype re_item = Lit char | Bol | Eol | Plus cclass

type_synonym RegExp = "re_item list"

fun inClass :: "cclass \<Rightarrow> char \<Rightarrow> bool" where
  "inClass WordClass c = isWordChar c"
| "inClass WordDollarClass c = (isWordChar c \<or> c = CHR ''$'')"
| "inClass DigitClass c = isDigit c"

text \<open>A match of the whole pattern that starts at the current position.\<close>

fun matchHere :: "RegExp \<Rightarrow> bool \<Rightarrow> string \<Rightarrow> bool" where
  "matchHere [] atStart s = True"
| "matchHere (Bol # r) atStart s = (atStart \<and> matchHere r atStart s)"
| "matchHere (Eol # r) atStart s = (s = [] \<and> matchHere r atStart s)"
| "matchHere (Lit c # r) atStart [] = False"
| "matchHere (Lit c # r) atStart (x # xs) = (x = c \<and> matchHere r False xs)"
| "matchHere (Plus k # r) atStart [] = False"
| "matchHere (Plus k # r) atStart (x # xs) =
     (inClass k x \<and> (matchHere (Plus k # r) False xs \<or> matchHere r False xs))"

fun searchFrom :: "RegExp \<Rightarrow> bool \<Rightarrow> string \<Rightarrow> bool" where
  "searchFrom re atStart [] = matchHere re atStart []"
| "searchFrom re atStart (c # cs) = (matchHere re atStart (c # cs) \<or> searchFrom re False cs)"

text \<open>\<^verbatim>\<open>re.test(s)\<close>, and \<^verbatim>\<open>s.match(re) !== null\<close>.\<close>

definition regexpTest :: "RegExp \<Rightarrow> string \<Rightarrow> bool" where
  "regexpTest re s = searchFrom re True s"

definition isSyntaxChar :: "char \<Rightarrow> bool" where
  "isSyntaxChar c = (c \<in> set ''^$.*+?()[]{}|'' \<or> c = bs)"

text \<open>
  \<^verbatim>\<open>new RegExp(source)\<close>. The sources the mapper builds hold the anchors, escaped dots
  and dollars, the class \<^verbatim>\<open>[\w\$]+\<close> and characters that stand for themselves; any
  other syntax is outside the fragment.
\<close>

fun parseRegExp :: "string \<Rightarrow> RegExp option" where
  "parseRegExp [] = Some []"
| "parseRegExp (c # cs) =
     (if c = CHR ''^'' then map_option ((#) Bol) (parseRegExp cs)
      else if c = CHR ''$'' then map_option ((#) Eol) (parseRegExp cs)
      else if c = bs then
        (case cs of
           [] \<Rightarrow> None
         | d # ds \<Rightarrow> if d = CHR ''.'' \<or> d = CHR ''$'' then map_option ((#) (Lit d)) (parseRegExp ds)
                    else None)
      else if c = CHR ''['' then
        (if take 6 cs = [bs, CHR ''w'', bs, CHR ''$'', CHR '']'', CHR ''+'']
         then map_option ((#) (Plus WordDollarClass)) (parseRegExp (drop 6 cs))
         else None)
      else if isSyntaxChar c then None
      else map_option ((#) (Lit c)) (parseRegExp cs))"

definition newRegExp :: "string \<Rightarrow> error + RegExp" where
  "newRegExp source =
     (case parseRegExp source of None \<Rightarrow> Inl (Unmodelled source) | Some re \<Rightarrow> Inr re)"

text \<open>\<^verbatim>\<open>s.replace(/\./g, '\\.')\<close>\<close>

definition escapeDots :: "string \<Rightarrow> string" where
  "escapeDots s = concat (map (\<lambda>c. if c = CHR ''.'' then [bs, c] else [c]) s)"

text \<open>\<^verbatim>\<open>s.replace(/([\.\$])/g, '\\$1')\<close>\<close>

definition escapeDotsAndDollars :: "string \<Rightarrow> string" where
  "escapeDotsAndDollars s =
     concat (map (\<lambda>c. if c = CHR ''.'' \<or> c = CHR ''$'' then [bs, c] else [c]) s)"

text \<open>
  The characters of a package expression and of a class name that the fragment covers:
  a dot (which the mapper escapes), in a class name also a dollar, and every character
  that stands for itself in a pattern.
\<close>

definition packageNameChar :: "char \<Rightarrow> bool" where
  "packageNameChar c = (c = CHR ''.'' \<or> \<not> isSyntaxChar c)"

definition classNameChar :: "char \<Rightarrow> bool" where
  "classNameChar c = (c = CHR ''.'' \<or> c = CHR ''$'' \<or> \<not> isSyntaxChar c)"

section \<open>The data model\<close>

text \<open>
  \<^verbatim>\<open>MethodDefinition\<close> and \<^verbatim>\<open>ClassDefinition\<close>, with the fields that the mapper's
  algorithms read; the other fields of the source are carried along unread.
\<close>

record MethodDefinition =
  name :: string
  declared :: string
  paramTypes :: "string list"
  tsParamTypes :: "string list"
  generic_proto :: string
  signature :: string

type_synonym VariantsBySignature = "string \<rightharpoonup> MethodDefinition"

type_synonym MethodsByNameBySignature = "string \<rightharpoonup> VariantsBySignature"

record ClassDefinition =
  fullName :: string
  interfaces :: "string list"
  variantsDict :: MethodsByNameBySignature

type_synonym ClassDefinitionMap = "string \<rightharpoonup> ClassDefinition"

datatype ParamContext = eInput | eReturn

text \<open>The two configuration properties that the constructor reads.\<close>

record TsJavaOptions =
  opt_packages :: "string list"
  opt_classes :: "string list"

text \<open>
  The members of \<^verbatim>\<open>ClassesMap\<close>. \<open>shortToLongNameMap\<close> is \<^verbatim>\<open>null\<close> until
  \<^verbatim>\<open>createShortNameMap\<close> has run, and holds \<^verbatim>\<open>null\<close> for an ambiguous short name.
\<close>

record ClassesMap =
  unhandledTypes :: "string set"
  classes :: ClassDefinitionMap
  includedPatterns :: "RegExp list"
  shortToLongNameMap :: "(string \<rightharpoonup> string option) option"
  allClasses :: "string set"
  allExcludedClasses :: "string set"
  interfaceDepthCache :: "string \<rightharpoonup> nat"

definition requiredCoreClasses :: "string list" where
  "requiredCoreClasses = [''java.lang.Object'', ''java.lang.String'']"

section \<open>Class names\<close>

text \<open>
  \<^verbatim>\<open>/^([\w\.]+)\.\1\$(.+)$/.exec(className)\<close>. The first group holds no dollar, so
  the first dollar of a matching name stands right after the repeated group: the groups
  are determined by its position.
\<close>

definition execRedundantOuter :: "string \<Rightarrow> (string \<times> string) option" where
  "execRedundantOuter className =
     (let before = takeWhile (\<lambda>c. c \<noteq> CHR ''$'') className;
          n = (length before - 1) div 2;
          m1 = take n before;
          m2 = drop (Suc (length before)) className
      in if length before < length className \<and> 0 < n \<and> before = m1 @ ''.'' @ m1
            \<and> list_all (\<lambda>c. isWordChar c \<or> c = CHR ''.'') m1
            \<and> m2 \<noteq> [] \<and> \<not> list_ex isLineTerminator m2
         then Some (m1, m2) else None)"

definition fixGenericNestedTypeName :: "string \<Rightarrow> string" where
  "fixGenericNestedTypeName className =
     (case execRedundantOuter className of
        Some (m1, m2) \<Rightarrow> m1 @ ''$'' @ m2
      | None \<Rightarrow> className)"

text \<open>
  \<^verbatim>\<open>/^(.*)<(.*)>$/.exec(s)\<close>: the first group is greedy, so it ends at the last
  \<^verbatim>\<open><\<close> before the closing \<^verbatim>\<open>>\<close>.
\<close>

definition genericTypeExp :: "string \<Rightarrow> (string \<times> string) option" where
  "genericTypeExp s =
     (if s \<noteq> [] \<and> last s = CHR ''>'' \<and> CHR ''<'' \<in> set (butlast s) \<and> \<not> list_ex isLineTerminator s
      then let inner = butlast s;
               k = length (takeWhile (\<lambda>c. c \<noteq> CHR ''<'') (rev inner))
           in Some (take (length inner - Suc k) inner, drop (length inner - k) inner)
      else None)"

definition classNameOnly :: "ClassesMap \<Rightarrow> string \<Rightarrow> error + string" where
  "classNameOnly this possiblyGenericClassName =
     (let className0 = (case genericTypeExp possiblyGenericClassName of
                          Some (m1, m2) \<Rightarrow> m1
                        | None \<Rightarrow> possiblyGenericClassName);
          className = fixGenericNestedTypeName className0;
          isKnown = (className \<in> allClasses this \<or> className \<in> allExcludedClasses this)
      in if \<not> isKnown then Inl (Error (possiblyGenericClassName @ '' is not a known className''))
         else Inr className)"

definition isIncludedClass :: "ClassesMap \<Rightarrow> string \<Rightarrow> error + bool" where
  "isIncludedClass this className =
     bindE (classNameOnly this className) (\<lambda>c. Inr (c \<in> allClasses this))"


section \<open>The whitelist\<close>

definition packageExpressionToRegExp :: "string \<Rightarrow> error + RegExp" where
  "packageExpressionToRegExp expr0 =
     (let expr =
            (if regexpTest [Lit CHR ''.'', Lit CHR ''*'', Eol] expr0
             then butlast expr0 @ ''['' @ [bs] @ ''w'' @ [bs] @ ''$]+$''
             else if regexpTest [Lit CHR ''.'', Lit CHR ''*'', Lit CHR ''*'', Eol] expr0
             then take (length expr0 - 2) expr0
             else expr0)
      in newRegExp (''^'' @ escapeDots expr))"

definition inWhiteList :: "ClassesMap \<Rightarrow> string \<Rightarrow> bool" where
  "inWhiteList this className =
     (let allowed = list_ex (\<lambda>ns. regexpTest ns className) (includedPatterns this)
      in if allowed
         then (let isAnon = regexpTest [Lit CHR ''$'', Plus DigitClass, Eol] className
               in if isAnon then False else allowed)
         else allowed)"

text \<open>The loop of the constructor over the seed classes.\<close>

fun addSeeds :: "ClassesMap \<Rightarrow> string list \<Rightarrow> error + ClassesMap" where
  "addSeeds this [] = Inr this"
| "addSeeds this (className # seeds) =
     (if \<not> inWhiteList this className
      then bindE (newRegExp (''^'' @ escapeDotsAndDollars className @ ''$''))
             (\<lambda>pattern. addSeeds (this\<lparr>includedPatterns := includedPatterns this @ [pattern]\<rparr>) seeds)
      else addSeeds this seeds)"

text \<open>
  \<^verbatim>\<open>new ClassesMap(options)\<close>. The seeds are a set: the required core classes, then
  the configured classes, each once.
\<close>

definition ClassesMap_constructor :: "TsJavaOptions \<Rightarrow> error + ClassesMap" where
  "ClassesMap_constructor options =
     bindE (mapE packageExpressionToRegExp (opt_packages options)) (\<lambda>patterns.
       addSeeds
         \<lparr>unhandledTypes = {}, classes = Map.empty, includedPatterns = patterns,
          shortToLongNameMap = None, allClasses = {}, allExcludedClasses = {},
          interfaceDepthCache = Map.empty\<rparr>
         (remdups (requiredCoreClasses @ opt_classes options)))"

section \<open>The type-name translator\<close>

text \<open>The loop of \<^verbatim>\<open>jniDecodeType\<close> over the leading \<^verbatim>\<open>[\<close> markers.\<close>

fun stripArrayMarkers :: "bool \<Rightarrow> string \<Rightarrow> string \<Rightarrow> error + (string \<times> string)" where
  "stripArrayMarkers encodedTypes [] ext = Inr ([], ext)"
| "stripArrayMarkers encodedTypes (c # cs) ext =
     (if c = CHR ''[''
      then if \<not> encodedTypes then Inl Abort else stripArrayMarkers encodedTypes cs (ext @ ''[]'')
      else Inr (c # cs, ext))"

text \<open>\<^verbatim>\<open>typeName.match(/^L(.*);$/)\<close>\<close>

definition matchObjectType :: "string \<Rightarrow> string option" where
  "matchObjectType typeName =
     (case typeName of
        [] \<Rightarrow> None
      | c # cs \<Rightarrow> if c = CHR ''L'' \<and> cs \<noteq> [] \<and> last cs = CHR '';''
                    \<and> \<not> list_ex isLineTerminator (butlast cs)
                 then Some (butlast cs) else None)"

definition jniAbbreviations :: "(string \<times> string) list" where
  "jniAbbreviations =
     [(''B'', ''byte''), (''C'', ''char''), (''D'', ''double''), (''F'', ''float''),
      (''I'', ''int''), (''J'', ''long''), (''S'', ''short''), (''Z'', ''boolean'')]"

definition jniDecodeType :: "string \<Rightarrow> bool \<Rightarrow> error + (string \<times> string)" where
  "jniDecodeType javaTypeName encodedTypes =
     bindE (stripArrayMarkers encodedTypes javaTypeName []) (\<lambda>(typeName0, ext).
     bindE (case matchObjectType typeName0 of
              Some m1 \<Rightarrow> if \<not> encodedTypes then Inl Abort else Inr m1
            | None \<Rightarrow> Inr typeName0) (\<lambda>typeName1.
     bindE (if map_of jniAbbreviations typeName1 \<noteq> None \<or> typeName1 \<in> set objectPrototypeKeys
            then if \<not> encodedTypes then Inl Abort else replaceIfIn jniAbbreviations typeName1
            else Inr typeName1) (\<lambda>typeName.
     Inr (typeName, ext))))"

definition primitiveToObjectMap :: "(string \<times> string) list" where
  "primitiveToObjectMap =
     [(''byte'', ''java.lang.Object''), (''char'', ''java.lang.Object''),
      (''boolean'', ''java.lang.Boolean''), (''short'', ''java.lang.Short''),
      (''long'', ''java.lang.Long''), (''int'', ''java.lang.Integer''),
      (''float'', ''java.lang.Float''), (''double'', ''java.lang.Double'')]"

definition boxIfJavaPrimitive :: "string \<Rightarrow> error + string" where
  "boxIfJavaPrimitive typeName = replaceIfIn primitiveToObjectMap typeName"

definition mapUnhandledTypesToJavaLangObject ::
    "ClassesMap \<Rightarrow> string \<Rightarrow> error + (string \<times> ClassesMap)" where
  "mapUnhandledTypesToJavaLangObject this typeName =
     (if typeName \<noteq> ''void''
      then bindE (isIncludedClass this typeName) (\<lambda>included.
             if \<not> included
             then Inr (''java.lang.Object'',
                       this\<lparr>unhandledTypes := insert typeName (unhandledTypes this)\<rparr>)
             else Inr (typeName, this))
      else Inr (typeName, this))"

definition javaTypeToTypescriptType :: "ParamContext \<Rightarrow> (string \<times> string) list" where
  "javaTypeToTypescriptType context =
     [(''void'', ''void''),
      (''java.lang.Boolean'', if context = eInput then ''boolean_t'' else ''boolean''),
      (''java.lang.Double'', if context = eInput then ''double_t'' else ''number''),
      (''java.lang.Float'', if context = eInput then ''float_t'' else ''number''),
      (''java.lang.Integer'', if context = eInput then ''integer_t'' else ''number''),
      (''java.lang.Long'', if context = eInput then ''long_t'' else ''longValue_t''),
      (''java.lang.Number'', if context = eInput then ''number_t'' else ''number''),
      (''java.lang.Object'', if context = eInput then ''object_t'' else ''object_t''),
      (''java.lang.Short'', if context = eInput then ''short_t'' else ''number''),
      (''java.lang.String'', if context = eInput then ''string_t'' else ''string'')]"

definition mapJavaPrimitivesToTypescript :: "string \<Rightarrow> ParamContext \<Rightarrow> error + string" where
  "mapJavaPrimitivesToTypescript typeName context =
     replaceIfIn (javaTypeToTypescriptType context) typeName"

text \<open>\<^verbatim>\<open>_.last(className.split('.'))\<close>\<close>

definition shortClassName :: "string \<Rightarrow> string" where
  "shortClassName className = rev (takeWhile (\<lambda>c. c \<noteq> CHR ''.'') (rev className))"

definition getJavaAliasName :: "ClassesMap \<Rightarrow> string \<Rightarrow> error + string" where
  "getJavaAliasName this className =
     bindE (isIncludedClass this className) (\<lambda>included.
       if \<not> included then Inl AssertionError
       else (case shortToLongNameMap this of
               None \<Rightarrow> Inl TypeError
             | Some m \<Rightarrow>
                 (let shortName = shortClassName className
                  in Inr (''Java.'' @ (if m shortName = Some (Some className) then shortName
                                       else className)))))"

definition tsTypeName ::
    "ClassesMap \<Rightarrow> string \<Rightarrow> ParamContext \<Rightarrow> bool \<Rightarrow> error + (string \<times> ClassesMap)" where
  "tsTypeName this javaTypeName context encodedTypes =
     bindE (jniDecodeType javaTypeName encodedTypes) (\<lambda>(typeName0, ext).
     bindE (boxIfJavaPrimitive typeName0) (\<lambda>typeName1.
     bindE (mapUnhandledTypesToJavaLangObject this typeName1) (\<lambda>(typeName2, this1).
     bindE (mapJavaPrimitivesToTypescript typeName2 context) (\<lambda>mappedType.
     bindE (if mappedType \<noteq> typeName2 \<or> typeName2 = ''void'' then Inr (mappedType, this1)
            else bindE (isIncludedClass this1 typeName2) (\<lambda>included.
                   if included
                   then bindE (getJavaAliasName this1 typeName2) (\<lambda>alias. Inr (alias, this1))
                   else Inr (''any'',
                             this1\<lparr>unhandledTypes := insert typeName2 (unhandledTypes this1)\<rparr>)))
       (\<lambda>(typeName, this2).
          if ext = []
          then Inr (typeName, this2)
          else if context = eReturn
          then Inr (typeName @ ext, this2)
          else if ext = ''[]''
          then Inr (''array_t<'' @ typeName @ ''>'', this2)
          else Inr (''void'',
                    this2\<lparr>unhandledTypes := insert (typeName @ ext) (unhandledTypes this2)\<rparr>))))))"

section \<open>Ordering the variants of a method\<close>

definition countArgsOfTypeAny :: "MethodDefinition \<Rightarrow> nat" where
  "countArgsOfTypeAny a = length (filter (\<lambda>t. t = ''any'') (tsParamTypes a))"

text \<open>
  \<^verbatim>\<open>String.prototype.localeCompare\<close> is the collation of the host, so the comparator
  takes it as the argument \<open>localeCompare\<close>: \<open>localeCompare x y\<close> stands for
  \<^verbatim>\<open>x.localeCompare(y)\<close>.
\<close>

definition compareVariants ::
    "(string \<Rightarrow> string \<Rightarrow> int) \<Rightarrow> MethodDefinition \<Rightarrow> MethodDefinition \<Rightarrow> int" where
  "compareVariants localeCompare a b =
     (if length (paramTypes a) > length (paramTypes b) then - 1
      else if length (paramTypes a) < length (paramTypes b) then 1
      else if countArgsOfTypeAny a < countArgsOfTypeAny b then - 1
      else if countArgsOfTypeAny a > countArgsOfTypeAny b then 1
      else if length (signature a) > length (signature b) then - 1
      else if length (signature a) < length (signature b) then 1
      else (let result = localeCompare (signature b) (signature a)
            in if result \<noteq> 0 then result
               else localeCompare (generic_proto a) (generic_proto b)))"

text \<open>
  What a collation is taken to be: a three-way comparison of a total preorder (the sign
  flips when the arguments are swapped, and \<open>\<le>\<close> is transitive).
\<close>

definition collation :: "(string \<Rightarrow> string \<Rightarrow> int) \<Rightarrow> bool" where
  "collation lc =
     ((\<forall>x y. sgn (lc y x) = - sgn (lc x y))
      \<and> (\<forall>x y z. lc x y \<le> 0 \<and> lc y z \<le> 0 \<longrightarrow> lc x z \<le> 0))"

text \<open>One collation: the comparison of the code units, as in the C locale.\<close>

fun codeUnitCompare :: "string \<Rightarrow> string \<Rightarrow> int" where
  "codeUnitCompare [] [] = 0"
| "codeUnitCompare [] (y # ys) = - 1"
| "codeUnitCompare (x # xs) [] = 1"
| "codeUnitCompare (x # xs) (y # ys) =
     (if (of_char x :: nat) < of_char y then - 1
      else if (of_char y :: nat) < of_char x then 1
      else codeUnitCompare xs ys)"

section \<open>The variants of one class\<close>

text \<open>
  \<^verbatim>\<open>groupMethods\<close>: the methods of one class, grouped by name and then by signature; a
  later method replaces an earlier one with the same name and signature. An assignment
  to the key \<^verbatim>\<open>__proto__\<close> of an object literal sets the prototype of the object and adds
  no property to it, so a method with that name leaves no entry, and one with that
  signature leaves its name with the entries it had.
\<close>

definition groupMethods :: "MethodDefinition list \<Rightarrow> MethodsByNameBySignature" where
  "groupMethods flatList =
     fold (\<lambda>method result.
             if name method = ''__proto__'' then result
             else (let bySig = (case result (name method) of None \<Rightarrow> Map.empty | Some d \<Rightarrow> d)
                   in result(name method \<mapsto>
                        (if signature method = ''__proto__'' then bySig
                         else bySig(signature method \<mapsto> method)))))
          flatList Map.empty"

section \<open>The worklist\<close>

text \<open>
  Modelled from the spec: the class \<^verbatim>\<open>Work\<close> of \<^verbatim>\<open>lib/work.ts\<close>, which is not among
  the sources. The spec describes a first-in first-out queue of class names with a done
  set: \<^verbatim>\<open>addTodo\<close> enqueues a name that is neither done nor pending, \<^verbatim>\<open>forEach\<close>
  drains the queue, calling the visitor once for each name (the visitor may enqueue more)
  and marking the name done, and \<^verbatim>\<open>getDone\<close> is the done set. The done set is kept in
  the order in which the names were finished.
\<close>

record Work =
  todo :: "string list"
  doneSet :: "string list"

definition newWork :: Work where
  "newWork = \<lparr>todo = [], doneSet = []\<rparr>"

definition addTodo :: "string \<Rightarrow> Work \<Rightarrow> Work" where
  "addTodo item w =
     (if item \<in> set (doneSet w) \<or> item \<in> set (todo w) then w
      else w\<lparr>todo := todo w @ [item]\<rparr>)"

definition alreadyDone :: "Work \<Rightarrow> string \<Rightarrow> bool" where
  "alreadyDone w item = (item \<in> set (doneSet w))"

definition setDone :: "string \<Rightarrow> Work \<Rightarrow> Work" where
  "setDone item w =
     w\<lparr>todo := removeAll item (todo w),
       doneSet := (if item \<in> set (doneSet w) then doneSet w else doneSet w @ [item])\<rparr>"

text \<open>The loop of \<^verbatim>\<open>forEach\<close>; \<open>fuel\<close> bounds the number of visits.\<close>

fun workForEach :: "nat \<Rightarrow> (string \<Rightarrow> Work \<Rightarrow> error + Work) \<Rightarrow> Work \<Rightarrow> error + Work" where
  "workForEach 0 visitor w = (if todo w = [] then Inr w else Inl OutOfFuel)"
| "workForEach (Suc fuel) visitor w =
     (case todo w of
        [] \<Rightarrow> Inr w
      | item # rest \<Rightarrow>
          bindE (visitor item w) (\<lambda>w'. workForEach fuel visitor (setDone item w')))"

definition getDone :: "Work \<Rightarrow> string list" where
  "getDone w = doneSet w"

section \<open>Inherited interfaces\<close>

definition interfacesTransitiveClosure ::
    "nat \<Rightarrow> ClassesMap \<Rightarrow> string list \<Rightarrow> error + string list" where
  "interfacesTransitiveClosure fuel this directInterfaces =
     (let work = fold addTodo directInterfaces newWork
      in bindE (workForEach fuel
                  (\<lambda>intf w. case classes this intf of
                               None \<Rightarrow> Inl TypeError
                             | Some cd \<Rightarrow> Inr (fold addTodo (interfaces cd) w))
                  work)
           (\<lambda>w. Inr (getDone w)))"

text \<open>
  \<open>fuel\<close> bounds the depth of the recursion: on a class table with a cycle of interfaces
  the source recurses until the call stack is used up.
\<close>

fun interfaceDepth :: "nat \<Rightarrow> ClassesMap \<Rightarrow> string \<Rightarrow> error + (nat \<times> ClassesMap)" where
  "interfaceDepth 0 this intf = Inl OutOfFuel"
| "interfaceDepth (Suc fuel) this intf =
     (case interfaceDepthCache this intf of
        Some d \<Rightarrow> Inr (d, this)
      | None \<Rightarrow>
          (case classes this intf of
             None \<Rightarrow> Inl TypeError
           | Some cd \<Rightarrow>
               (let parents = interfaces cd
                in if length parents > 0
                   then bindE (mapState (interfaceDepth fuel) this parents) (\<lambda>(depths, this').
                          let intfDepth = Max (set depths) + 1
                          in Inr (intfDepth,
                                  this'\<lparr>interfaceDepthCache :=
                                          (interfaceDepthCache this')(intf \<mapsto> intfDepth)\<rparr>))
                   else Inr (0, this\<lparr>interfaceDepthCache :=
                                       (interfaceDepthCache this)(intf \<mapsto> 0)\<rparr>))))"

text \<open>
  \<^verbatim>\<open>Array.prototype.sort\<close> with the comparator
  \<^verbatim>\<open>interfaceDepth(intf2) - interfaceDepth(intf1)\<close>. An array of fewer than two elements
  is returned without a call of the comparator; otherwise the comparator reads the depth
  of every element, and the elements are put in descending order of depth, elements of
  the same depth in the order they had.
\<close>

definition sortByDepthDescending ::
    "nat \<Rightarrow> ClassesMap \<Rightarrow> string list \<Rightarrow> error + (string list \<times> ClassesMap)" where
  "sortByDepthDescending fuel this intfs =
     (if length intfs < 2 then Inr (intfs, this)
      else bindE (mapState (interfaceDepth fuel) this intfs) (\<lambda>(depths, this').
             Inr (map fst (sort_key (\<lambda>(intf, d). - int d) (zip intfs depths)), this')))"

text \<open>
  The body of the inner loop of \<^verbatim>\<open>mergeOverloadedVariants\<close>: \<^verbatim>\<open>_.assign(target, source)\<close>
  copies every property of the source into the target. The name \<open>intfName\<close> comes from
  \<^verbatim>\<open>interfacesTransitiveClosure\<close>, which has read its entry of the class table.
\<close>

definition assignInherited ::
    "ClassDefinitionMap \<Rightarrow> string \<Rightarrow> string \<Rightarrow> VariantsBySignature \<Rightarrow> VariantsBySignature" where
  "assignInherited classTable methodName intfName methodVariants =
     (case classTable intfName of
        None \<Rightarrow> methodVariants
      | Some cd \<Rightarrow>
          (case variantsDict cd methodName of
             Some intfVariants \<Rightarrow> methodVariants ++ intfVariants
           | None \<Rightarrow> methodVariants))"

definition mergeOverloadedVariants ::
    "nat \<Rightarrow> ClassesMap \<Rightarrow> MethodsByNameBySignature \<Rightarrow> string list
       \<Rightarrow> error + (MethodsByNameBySignature \<times> ClassesMap)" where
  "mergeOverloadedVariants fuel this variants directInterfaces =
     bindE (interfacesTransitiveClosure fuel this directInterfaces) (\<lambda>closure.
     bindE (sortByDepthDescending fuel this closure) (\<lambda>(intfs, this').
       Inr (\<lambda>methodName.
              map_option
                (\<lambda>methodVariants. fold (assignInherited (classes this') methodName) intfs methodVariants)
                (variants methodName),
            this')))"

section \<open>The interface depth and the inherited interfaces, as the spec states them\<close>

text \<open>
  The spec's recurrence, as a relation between a class and its depth: a class of the
  class table with no parent has depth 0, and a class with parents has a depth 1 greater
  than the largest depth of a parent. A class has a depth exactly when the part of the
  class table that it inherits from is complete and has no cycle.
\<close>

inductive hasDepth :: "ClassDefinitionMap \<Rightarrow> string \<Rightarrow> nat \<Rightarrow> bool"
  for classTable :: ClassDefinitionMap where
  "classTable intf = Some cd \<Longrightarrow> list_all2 (hasDepth classTable) (interfaces cd) depths \<Longrightarrow>
   d = (if depths = [] then 0 else Max (set depths) + 1) \<Longrightarrow> hasDepth classTable intf d"

text \<open>The invariant of the interface-depth cache: every entry is the depth of its class.\<close>

definition cacheValid :: "ClassesMap \<Rightarrow> bool" where
  "cacheValid this =
     (\<forall>intf d. interfaceDepthCache this intf = Some d \<longrightarrow> hasDepth (classes this) intf d)"

text \<open>The direct parents of a class, and everything a list of classes inherits from.\<close>

definition parentRel :: "ClassDefinitionMap \<Rightarrow> (string \<times> string) set" where
  "parentRel classTable =
     {(c, p). \<exists>cd. classTable c = Some cd \<and> p \<in> set (interfaces cd)}"

definition inherited :: "ClassDefinitionMap \<Rightarrow> string list \<Rightarrow> string set" where
  "inherited classTable directInterfaces = (parentRel classTable)\<^sup>* `` set directInterfaces"

text \<open>
  What a depth query leaves as it was: every member but the cache, and every entry that
  the cache holds.
\<close>

definition onlyCacheGrows :: "ClassesMap \<Rightarrow> ClassesMap \<Rightarrow> bool" where
  "onlyCacheGrows this this' =
     (unhandledTypes this' = unhandledTypes this \<and> classes this' = classes this
      \<and> includedPatterns this' = includedPatterns this
      \<and> shortToLongNameMap this' = shortToLongNameMap this
      \<and> allClasses this' = allClasses this \<and> allExcludedClasses this' = allExcludedClasses this
      \<and> interfaceDepthCache this \<subseteq>\<^sub>m interfaceDepthCache this')"

text \<open>
  The invariant of the worklist while the inherited interfaces are collected: only
  inherited names are pending or done, the direct interfaces are pending or done, the
  parents of a done name are pending or done, no name is done twice or both pending
  and done, and every done name has an entry in the class table.
\<close>

definition workInv :: "ClassDefinitionMap \<Rightarrow> string list \<Rightarrow> Work \<Rightarrow> bool" where
  "workInv classTable directInterfaces w =
     (set (todo w) \<union> set (doneSet w) \<subseteq> inherited classTable directInterfaces
      \<and> set directInterfaces \<subseteq> set (todo w) \<union> set (doneSet w)
      \<and> (\<forall>x\<in>set (doneSet w). \<forall>p. (x, p) \<in> parentRel classTable \<longrightarrow>
             p \<in> set (todo w) \<union> set (doneSet w))
      \<and> distinct (doneSet w) \<and> set (todo w) \<inter> set (doneSet w) = {}
      \<and> set (doneSet w) \<subseteq> dom classTable)"

text \<open>
  The variant that an inherited interface holds for a method name and a signature, if
  it holds one.
\<close>

definition inheritedVariant ::
    "ClassDefinitionMap \<Rightarrow> string \<Rightarrow> string \<Rightarrow> string \<Rightarrow> MethodDefinition option" where
  "inheritedVariant classTable methodName sig intfName =
     (case classTable intfName of
        None \<Rightarrow> None
      | Some cd \<Rightarrow> (case variantsDict cd methodName of None \<Rightarrow> None | Some d \<Rightarrow> d sig))"


text \<open>
  The variant that a walk over a list of interfaces leaves for a method name and a
  signature: the one of the last interface of the list that holds one.
\<close>

definition lastInherited ::
    "ClassDefinitionMap \<Rightarrow> string \<Rightarrow> string \<Rightarrow> string list \<Rightarrow> MethodDefinition option" where
  "lastInherited classTable methodName sig intfs =
     (case List.map_filter (inheritedVariant classTable methodName sig) intfs of
        [] \<Rightarrow> None
      | v # vs \<Rightarrow> Some (last (v # vs)))"

text \<open>Descending order of depth: no class of the list is deeper than one before it.\<close>

definition deeperOrEqual :: "ClassDefinitionMap \<Rightarrow> string \<Rightarrow> string \<Rightarrow> bool" where
  "deeperOrEqual classTable a b =
     (\<forall>da db. hasDepth classTable a da \<longrightarrow> hasDepth classTable b db \<longrightarrow> db \<le> da)"

text \<open>
  A dictionary of variants that is keyed by signature: every variant stands under its own
  signature, so that two variants of the dictionary with the same signature are the same
  variant.
\<close>

definition keyedBySignature :: "VariantsBySignature \<Rightarrow> bool" where
  "keyedBySignature bySig = (\<forall>sig m. bySig sig = Some m \<longrightarrow> signature m = sig)"

section \<open>Example inputs\<close>

text \<open>
  Three variants of \<^verbatim>\<open>size\<close> with the same signature, as reflection renders them for
  \<^verbatim>\<open>java.util.List\<close>, \<^verbatim>\<open>java.util.ArrayList\<close> and \<^verbatim>\<open>java.util.Vector\<close>.
\<close>

definition size_List :: MethodDefinition where
  "size_List =
     \<lparr>name = ''size'', declared = ''java.util.List'', paramTypes = [], tsParamTypes = [],
      generic_proto = ''public abstract int java.util.List.size()'', signature = ''size()I''\<rparr>"

definition size_ArrayList :: MethodDefinition where
  "size_ArrayList =
     \<lparr>name = ''size'', declared = ''java.util.ArrayList'', paramTypes = [], tsParamTypes = [],
      generic_proto = ''public int java.util.ArrayList.size()'', signature = ''size()I''\<rparr>"

definition size_Vector :: MethodDefinition where
  "size_Vector =
     \<lparr>name = ''size'', declared = ''java.util.Vector'', paramTypes = [], tsParamTypes = [],
      generic_proto = ''public synchronized int java.util.Vector.size()'', signature = ''size()I''\<rparr>"



text \<open>
  An inclusion state after \<^verbatim>\<open>createShortNameMap\<close>: four classes in scope, each with an
  unambiguous short name.
\<close>

definition C3_state :: ClassesMap where
  "C3_state =
     \<lparr>unhandledTypes = {}, classes = Map.empty, includedPatterns = [],
      shortToLongNameMap =
        Some [''Object'' \<mapsto> Some ''java.lang.Object'', ''String'' \<mapsto> Some ''java.lang.String'',
              ''Integer'' \<mapsto> Some ''java.lang.Integer'', ''List'' \<mapsto> Some ''java.util.List''],
      allClasses = {''java.lang.Object'', ''java.lang.String'', ''java.lang.Integer'', ''java.util.List''},
      allExcludedClasses = {},
      interfaceDepthCache = Map.empty\<rparr>"



text \<open>A configuration: two package expressions of the feature file and one seed class.\<close>

definition C10_options :: TsJavaOptions where
  "C10_options =
     \<lparr>opt_packages = [''java.util.*'', ''com.redseal.featureset.**''],
      opt_classes = [''com.tinkerpop.gremlin.structure.Graph'']\<rparr>"

text \<open>
  A class table: \<^verbatim>\<open>java.util.List\<close> extends \<^verbatim>\<open>java.util.Collection\<close>, which has
  \<^verbatim>\<open>java.lang.Object\<close> as its implicit parent. The variants dictionaries of the two
  interfaces are the ones that their own mapping has left.
\<close>

definition size_Collection :: MethodDefinition where
  "size_Collection =
     \<lparr>name = ''size'', declared = ''java.util.Collection'', paramTypes = [], tsParamTypes = [],
      generic_proto = ''public abstract int java.util.Collection.size()'', signature = ''size()I''\<rparr>"

definition add_Collection :: MethodDefinition where
  "add_Collection =
     \<lparr>name = ''add'', declared = ''java.util.Collection'', paramTypes = [''java.lang.Object''],
      tsParamTypes = [''object_t''],
      generic_proto = ''public abstract boolean java.util.Collection.add(E)'',
      signature = ''add(Ljava/lang/Object;)Z''\<rparr>"

definition add_List_index :: MethodDefinition where
  "add_List_index =
     \<lparr>name = ''add'', declared = ''java.util.List'', paramTypes = [''int'', ''java.lang.Object''],
      tsParamTypes = [''integer_t'', ''object_t''],
      generic_proto = ''public abstract void java.util.List.add(int,E)'',
      signature = ''add(ILjava/lang/Object;)V''\<rparr>"

definition add_ArrayList :: MethodDefinition where
  "add_ArrayList =
     \<lparr>name = ''add'', declared = ''java.util.ArrayList'', paramTypes = [''java.lang.Object''],
      tsParamTypes = [''object_t''],
      generic_proto = ''public boolean java.util.ArrayList.add(E)'',
      signature = ''add(Ljava/lang/Object;)Z''\<rparr>"

definition exampleClasses :: ClassDefinitionMap where
  "exampleClasses =
     [''java.lang.Object'' \<mapsto>
        \<lparr>fullName = ''java.lang.Object'', interfaces = [], variantsDict = Map.empty\<rparr>,
      ''java.util.Collection'' \<mapsto>
        \<lparr>fullName = ''java.util.Collection'', interfaces = [''java.lang.Object''],
         variantsDict =
           [''size'' \<mapsto> [''size()I'' \<mapsto> size_Collection],
            ''add'' \<mapsto> [''add(Ljava/lang/Object;)Z'' \<mapsto> add_Collection]]\<rparr>,
      ''java.util.List'' \<mapsto>
        \<lparr>fullName = ''java.util.List'', interfaces = [''java.util.Collection''],
         variantsDict =
           [''size'' \<mapsto> [''size()I'' \<mapsto> size_Collection],
            ''add'' \<mapsto> [''add(Ljava/lang/Object;)Z'' \<mapsto> add_Collection,
                        ''add(ILjava/lang/Object;)V'' \<mapsto> add_List_index]]\<rparr>]"

text \<open>The mapper while it maps \<^verbatim>\<open>java.util.ArrayList\<close>: the table above, an empty cache.\<close>

definition exampleMap :: ClassesMap where
  "exampleMap =
     \<lparr>unhandledTypes = {}, classes = exampleClasses, includedPatterns = [],
      shortToLongNameMap = None,
      allClasses = {''java.lang.Object'', ''java.util.Collection'', ''java.util.List'',
                    ''java.util.ArrayList''},
      allExcludedClasses = {}, interfaceDepthCache = Map.empty\<rparr>"

text \<open>The variants dictionary of \<^verbatim>\<open>java.util.ArrayList\<close> before the merge.\<close>

definition ownVariants :: MethodsByNameBySignature where
  "ownVariants =
     [''size'' \<mapsto> [''size()I'' \<mapsto> size_ArrayList],
      ''add'' \<mapsto> [''add(Ljava/lang/Object;)Z'' \<mapsto> add_ArrayList]]"


section \<open>Basic facts\<close>

lemma bindE_simps [simp]: "bindE (Inl e) f = Inl e" "bindE (Inr x) f = f x"
  by (simp_all add: bindE_def)

lemma bindE_assoc: "bindE (bindE m f) g = bindE m (\<lambda>x. bindE (f x) g)"
  by (cases m) simp_all

lemma bindE_Inr_iff: "(bindE m f = Inr y) = (\<exists>x. m = Inr x \<and> f x = Inr y)"
  by (cases m) simp_all


section \<open>The table of primitive and common types\<close>

text \<open>
  Claim C7. The translation of a boxed type depends on the context:
  \<^verbatim>\<open>java.lang.Integer\<close> becomes the union alias \<^verbatim>\<open>integer_t\<close> as an input parameter and
  \<^verbatim>\<open>number\<close> as a return type, and \<^verbatim>\<open>java.lang.Long\<close> becomes \<^verbatim>\<open>long_t\<close> as an input
  parameter and \<^verbatim>\<open>longValue_t\<close> as a return type.
\<close>

theorem mapJavaPrimitivesToTypescript_Integer_Long:
  "mapJavaPrimitivesToTypescript ''java.lang.Integer'' eInput = Inr ''integer_t''
   \<and> mapJavaPrimitivesToTypescript ''java.lang.Integer'' eReturn = Inr ''number''
   \<and> mapJavaPrimitivesToTypescript ''java.lang.Long'' eInput = Inr ''long_t''
   \<and> mapJavaPrimitivesToTypescript ''java.lang.Long'' eReturn = Inr ''longValue_t''"
  by (simp add: mapJavaPrimitivesToTypescript_def replaceIfIn_def javaTypeToTypescriptType_def)

section \<open>The comparator of variants\<close>

lemma collation_refl: "collation lc \<Longrightarrow> lc x x = 0"
proof -
  assume "collation lc"
  then have "sgn (lc x x) = - sgn (lc x x)" unfolding collation_def by blast
  then show ?thesis by (simp add: sgn_if split: if_splits)
qed

lemma collation_flip: "collation lc \<Longrightarrow> (lc y x < 0) = (lc x y > 0)" "collation lc \<Longrightarrow> (lc y x = 0) = (lc x y = 0)"
   "collation lc \<Longrightarrow> (lc y x > 0) = (lc x y < 0)"
proof -
  assume c: "collation lc"
  then have s: "sgn (lc y x) = - sgn (lc x y)" unfolding collation_def by blast
  show "(lc y x < 0) = (lc x y > 0)" using s by (auto simp: sgn_if split: if_splits)
  show "(lc y x = 0) = (lc x y = 0)" using s by (auto simp: sgn_if split: if_splits)
  show "(lc y x > 0) = (lc x y < 0)" using s by (auto simp: sgn_if split: if_splits)
qed

lemma collation_trans_le: "collation lc \<Longrightarrow> lc x y \<le> 0 \<Longrightarrow> lc y z \<le> 0 \<Longrightarrow> lc x z \<le> 0"
  unfolding collation_def by blast

lemma collation_trans_less: assumes c: "collation lc" and "lc x y < 0" "lc y z \<le> 0" shows "lc x z < 0"
proof (rule ccontr)
  assume "\<not> lc x z < 0"
  then have "lc z x \<le> 0" using collation_flip[OF c, of x z] by linarith
  with assms(3) have "lc y x \<le> 0" using collation_trans_le[OF c] by blast
  then show False using collation_flip[OF c, of y x] assms(2) by linarith
qed

lemma collation_trans_less2: assumes c: "collation lc" and "lc x y \<le> 0" "lc y z < 0" shows "lc x z < 0"
proof (rule ccontr)
  assume "\<not> lc x z < 0"
  then have "lc z x \<le> 0" using collation_flip[OF c, of x z] by linarith
  with assms(2) have "lc z y \<le> 0" using collation_trans_le[OF c] by blast
  then show False using collation_flip[OF c, of z y] assms(3) by linarith
qed

lemma collation_trans_eq: assumes c: "collation lc" and "lc x y = 0" "lc y z = 0" shows "lc x z = 0"
proof -
  have yx: "lc y x = 0" and zy: "lc z y = 0" using assms collation_flip(2)[OF c] by auto
  have "lc x z \<le> 0" using collation_trans_le[OF c, of x y z] assms by simp
  moreover have "lc z x \<le> 0" using collation_trans_le[OF c, of z y x] yx zy by simp
  ultimately show ?thesis using collation_flip[OF c, of x z] by linarith
qed

lemma tail_sign:
  fixes r g :: int
  shows "((if r \<noteq> 0 then r else g) < 0) = (r < 0 \<or> (r = 0 \<and> g < 0))"
    and "((if r \<noteq> 0 then r else g) > 0) = (r > 0 \<or> (r = 0 \<and> g > 0))"
    and "((if r \<noteq> 0 then r else g) = 0) = (r = 0 \<and> g = 0)"
  by auto

lemma level_sign:
  fixes p q :: nat and t :: int
  shows "((if p > q then - 1 else if p < q then 1 else t) < 0) = (p > q \<or> (p = q \<and> t < 0))"
    and "((if p > q then - 1 else if p < q then 1 else t) > 0) = (p < q \<or> (p = q \<and> t > 0))"
    and "((if p > q then - 1 else if p < q then 1 else t) = 0) = (p = q \<and> t = 0)"
    and "((if p < q then - 1 else if p > q then 1 else t) < 0) = (p < q \<or> (p = q \<and> t < 0))"
    and "((if p < q then - 1 else if p > q then 1 else t) > 0) = (p > q \<or> (p = q \<and> t > 0))"
    and "((if p < q then - 1 else if p > q then 1 else t) = 0) = (p = q \<and> t = 0)"
  by auto

lemma compareVariants_neg: "(compareVariants lc a b < 0) =
    (length (paramTypes a) > length (paramTypes b) \<or>
     (length (paramTypes a) = length (paramTypes b) \<and> (countArgsOfTypeAny a < countArgsOfTypeAny b \<or>
       (countArgsOfTypeAny a = countArgsOfTypeAny b \<and> (length (signature a) > length (signature b) \<or>
         (length (signature a) = length (signature b) \<and> (lc (signature b) (signature a) < 0 \<or>
           (lc (signature b) (signature a) = 0 \<and> lc (generic_proto a) (generic_proto b) < 0))))))))"
  unfolding compareVariants_def Let_def level_sign tail_sign by auto

lemma compareVariants_pos: "(compareVariants lc a b > 0) =
    (length (paramTypes a) < length (paramTypes b) \<or>
     (length (paramTypes a) = length (paramTypes b) \<and> (countArgsOfTypeAny a > countArgsOfTypeAny b \<or>
       (countArgsOfTypeAny a = countArgsOfTypeAny b \<and> (length (signature a) < length (signature b) \<or>
         (length (signature a) = length (signature b) \<and> (lc (signature b) (signature a) > 0 \<or>
           (lc (signature b) (signature a) = 0 \<and> lc (generic_proto a) (generic_proto b) > 0))))))))"
  unfolding compareVariants_def Let_def level_sign tail_sign by auto

lemma compareVariants_zero: "(compareVariants lc a b = 0) =
    (length (paramTypes a) = length (paramTypes b) \<and> (countArgsOfTypeAny a = countArgsOfTypeAny b
     \<and> (length (signature a) = length (signature b) \<and> (lc (signature b) (signature a) = 0
     \<and> lc (generic_proto a) (generic_proto b) = 0))))"
  unfolding compareVariants_def Let_def level_sign tail_sign by auto

lemma compareVariants_flip:
  assumes c: "collation lc"
  shows "(compareVariants lc b a > 0) = (compareVariants lc a b < 0)"
proof -
  have f: "(lc (signature a) (signature b) > 0) = (lc (signature b) (signature a) < 0)"
      "(lc (signature a) (signature b) = 0) = (lc (signature b) (signature a) = 0)"
      "(lc (generic_proto b) (generic_proto a) > 0) = (lc (generic_proto a) (generic_proto b) < 0)"
    using collation_flip[OF c] by blast+
  have e: "(length (paramTypes b) = length (paramTypes a)) = (length (paramTypes a) = length (paramTypes b))"
     "(countArgsOfTypeAny b = countArgsOfTypeAny a) = (countArgsOfTypeAny a = countArgsOfTypeAny b)"
     "(length (signature b) = length (signature a)) = (length (signature a) = length (signature b))"
    by auto
  show ?thesis unfolding compareVariants_neg compareVariants_pos f e ..
qed

lemma compareVariants_zero_sym:
  assumes c: "collation lc"
  shows "(compareVariants lc b a = 0) = (compareVariants lc a b = 0)"
proof -
  have f: "(lc (signature a) (signature b) = 0) = (lc (signature b) (signature a) = 0)"
      "(lc (generic_proto b) (generic_proto a) = 0) = (lc (generic_proto a) (generic_proto b) = 0)"
    using collation_flip[OF c] by blast+
  have e: "(length (paramTypes b) = length (paramTypes a)) = (length (paramTypes a) = length (paramTypes b))"
     "(countArgsOfTypeAny b = countArgsOfTypeAny a) = (countArgsOfTypeAny a = countArgsOfTypeAny b)"
     "(length (signature b) = length (signature a)) = (length (signature a) = length (signature b))"
    by auto
  show ?thesis unfolding compareVariants_zero f e ..
qed
lemma compareVariants_lex: "(compareVariants lc a b < 0) =
    (length (paramTypes b) < length (paramTypes a) \<or> (length (paramTypes b) = length (paramTypes a) \<and>
       (countArgsOfTypeAny a < countArgsOfTypeAny b \<or> (countArgsOfTypeAny a = countArgsOfTypeAny b \<and>
       (length (signature b) < length (signature a) \<or> (length (signature b) = length (signature a) \<and>
        (lc (signature b) (signature a) < 0 \<or>
        (lc (signature b) (signature a) = 0 \<and> lc (generic_proto a) (generic_proto b) < 0))))))))"
  unfolding compareVariants_neg by auto

lemma lex_step:
  fixes x y z :: nat
  assumes "x < y \<or> (x = y \<and> P)" and "y < z \<or> (y = z \<and> Q)" and "P \<Longrightarrow> Q \<Longrightarrow> R"
  shows "x < z \<or> (x = z \<and> R)"
  using assms by auto

lemma compareVariants_trans:
  assumes c: "collation lc"
      and ab: "compareVariants lc a b < 0" and bc: "compareVariants lc b c < 0"
  shows "compareVariants lc a c < 0"
proof -
  have sg: "lc (signature c) (signature a) < 0 \<or>
        (lc (signature c) (signature a) = 0 \<and> lc (generic_proto a) (generic_proto c) < 0)"
    if 1: "lc (signature b) (signature a) < 0 \<or>
        (lc (signature b) (signature a) = 0 \<and> lc (generic_proto a) (generic_proto b) < 0)"
    and 2: "lc (signature c) (signature b) < 0 \<or>
        (lc (signature c) (signature b) = 0 \<and> lc (generic_proto b) (generic_proto c) < 0)"
  proof -
    consider (ll) "lc (signature b) (signature a) < 0" "lc (signature c) (signature b) < 0"
      | (le) "lc (signature b) (signature a) < 0" "lc (signature c) (signature b) = 0"
      | (el) "lc (signature b) (signature a) = 0" "lc (signature c) (signature b) < 0"
      | (ee) "lc (signature b) (signature a) = 0" "lc (signature c) (signature b) = 0"
             "lc (generic_proto a) (generic_proto b) < 0" "lc (generic_proto b) (generic_proto c) < 0"
      using 1 2 by blast
    then show ?thesis
    proof cases
      case ll
      then show ?thesis using collation_trans_less[OF c, of "signature c" "signature b" "signature a"] by simp
    next
      case le
      then show ?thesis using collation_trans_less2[OF c, of "signature c" "signature b" "signature a"] by simp
    next
      case el
      then show ?thesis using collation_trans_less[OF c, of "signature c" "signature b" "signature a"] by simp
    next
      case ee
      then show ?thesis
        using collation_trans_eq[OF c, of "signature c" "signature b" "signature a"]
              collation_trans_less[OF c, of "generic_proto a" "generic_proto b" "generic_proto c"]
        by simp
    qed
  qed
  have l3: "length (signature c) < length (signature a) \<or> (length (signature c) = length (signature a) \<and>
        (lc (signature c) (signature a) < 0 \<or>
        (lc (signature c) (signature a) = 0 \<and> lc (generic_proto a) (generic_proto c) < 0)))"
    if "length (signature b) < length (signature a) \<or> (length (signature b) = length (signature a) \<and>
        (lc (signature b) (signature a) < 0 \<or>
        (lc (signature b) (signature a) = 0 \<and> lc (generic_proto a) (generic_proto b) < 0)))"
     and "length (signature c) < length (signature b) \<or> (length (signature c) = length (signature b) \<and>
        (lc (signature c) (signature b) < 0 \<or>
        (lc (signature c) (signature b) = 0 \<and> lc (generic_proto b) (generic_proto c) < 0)))"
    by (rule lex_step[OF that(2) that(1)]) (rule sg)
  have l2: "countArgsOfTypeAny a < countArgsOfTypeAny c \<or> (countArgsOfTypeAny a = countArgsOfTypeAny c \<and>
       (length (signature c) < length (signature a) \<or> (length (signature c) = length (signature a) \<and>
        (lc (signature c) (signature a) < 0 \<or>
        (lc (signature c) (signature a) = 0 \<and> lc (generic_proto a) (generic_proto c) < 0)))))"
    if "countArgsOfTypeAny a < countArgsOfTypeAny b \<or> (countArgsOfTypeAny a = countArgsOfTypeAny b \<and>
       (length (signature b) < length (signature a) \<or> (length (signature b) = length (signature a) \<and>
        (lc (signature b) (signature a) < 0 \<or>
        (lc (signature b) (signature a) = 0 \<and> lc (generic_proto a) (generic_proto b) < 0)))))"
     and "countArgsOfTypeAny b < countArgsOfTypeAny c \<or> (countArgsOfTypeAny b = countArgsOfTypeAny c \<and>
       (length (signature c) < length (signature b) \<or> (length (signature c) = length (signature b) \<and>
        (lc (signature c) (signature b) < 0 \<or>
        (lc (signature c) (signature b) = 0 \<and> lc (generic_proto b) (generic_proto c) < 0)))))"
    by (rule lex_step[OF that(1) that(2)]) (rule l3)
  have ab': "length (paramTypes b) < length (paramTypes a) \<or> (length (paramTypes b) = length (paramTypes a) \<and>
       (countArgsOfTypeAny a < countArgsOfTypeAny b \<or> (countArgsOfTypeAny a = countArgsOfTypeAny b \<and>
       (length (signature b) < length (signature a) \<or> (length (signature b) = length (signature a) \<and>
        (lc (signature b) (signature a) < 0 \<or>
        (lc (signature b) (signature a) = 0 \<and> lc (generic_proto a) (generic_proto b) < 0)))))))"
    using ab unfolding compareVariants_lex .
  have bc': "length (paramTypes c) < length (paramTypes b) \<or> (length (paramTypes c) = length (paramTypes b) \<and>
       (countArgsOfTypeAny b < countArgsOfTypeAny c \<or> (countArgsOfTypeAny b = countArgsOfTypeAny c \<and>
       (length (signature c) < length (signature b) \<or> (length (signature c) = length (signature b) \<and>
        (lc (signature c) (signature b) < 0 \<or>
        (lc (signature c) (signature b) = 0 \<and> lc (generic_proto b) (generic_proto c) < 0)))))))"
    using bc unfolding compareVariants_lex .
  have "length (paramTypes c) < length (paramTypes a) \<or> (length (paramTypes c) = length (paramTypes a) \<and>
       (countArgsOfTypeAny a < countArgsOfTypeAny c \<or> (countArgsOfTypeAny a = countArgsOfTypeAny c \<and>
       (length (signature c) < length (signature a) \<or> (length (signature c) = length (signature a) \<and>
        (lc (signature c) (signature a) < 0 \<or>
        (lc (signature c) (signature a) = 0 \<and> lc (generic_proto a) (generic_proto c) < 0)))))))"
    by (rule lex_step[OF bc' ab']) (rule l2)
  then show ?thesis unfolding compareVariants_lex .
qed


lemma compareVariants_zero_trans:
  assumes c: "collation lc"
      and ab: "compareVariants lc a b = 0" and bc: "compareVariants lc b c = 0"
  shows "compareVariants lc a c = 0"
  using ab bc unfolding compareVariants_zero
  using collation_trans_eq[OF c, of "signature c" "signature b" "signature a"]
        collation_trans_eq[OF c, of "generic_proto a" "generic_proto b" "generic_proto c"]
  by simp

lemma codeUnitCompare_sgn: "sgn (codeUnitCompare y x) = - sgn (codeUnitCompare x y)"
  by (induction x y rule: codeUnitCompare.induct) auto

lemma codeUnitCompare_trans:
  "codeUnitCompare x y \<le> 0 \<Longrightarrow> codeUnitCompare y z \<le> 0 \<Longrightarrow> codeUnitCompare x z \<le> 0"
proof (induction x arbitrary: y z)
  case Nil
  then show ?case by (cases z) auto
next
  case (Cons a x)
  show ?case
  proof (cases y)
    case Nil
    with Cons.prems show ?thesis by simp
  next
    case yc: (Cons b y')
    show ?thesis
    proof (cases z)
      case Nil
      with Cons.prems yc show ?thesis by simp
    next
      case zc: (Cons c z')
      show ?thesis using Cons.prems Cons.IH[of y' z'] unfolding yc zc
        by (auto split: if_splits)
    qed
  qed
qed

lemma collation_codeUnitCompare: "collation codeUnitCompare"
  unfolding collation_def using codeUnitCompare_sgn codeUnitCompare_trans by blast


text \<open>
  Claim C4. \<^verbatim>\<open>compareVariants\<close> puts \<open>a\<close> before \<open>b\<close> (a negative result) exactly when
  the first key on which they differ says so, the keys being, in this order: the number
  of parameters (more first), the number of entries of \<^verbatim>\<open>tsParamTypes\<close> that are the
  string \<^verbatim>\<open>any\<close> (fewer first), the length of the signature (longer first), the
  signature under the collation (descending) and the generic prototype under the
  collation (ascending). A positive result is the same with the two variants swapped.
\<close>

theorem compareVariants_key_order:
  "((compareVariants lc a b < 0) =
      (length (paramTypes a) > length (paramTypes b) \<or>
       (length (paramTypes a) = length (paramTypes b) \<and>
        (length (filter (\<lambda>t. t = ''any'') (tsParamTypes a)) < length (filter (\<lambda>t. t = ''any'') (tsParamTypes b)) \<or>
         (length (filter (\<lambda>t. t = ''any'') (tsParamTypes a)) = length (filter (\<lambda>t. t = ''any'') (tsParamTypes b)) \<and>
          (length (signature a) > length (signature b) \<or>
           (length (signature a) = length (signature b) \<and>
            (lc (signature b) (signature a) < 0 \<or>
             (lc (signature b) (signature a) = 0 \<and>
              lc (generic_proto a) (generic_proto b) < 0)))))))))
   \<and> ((compareVariants lc a b > 0) =
      (length (paramTypes a) < length (paramTypes b) \<or>
       (length (paramTypes a) = length (paramTypes b) \<and>
        (length (filter (\<lambda>t. t = ''any'') (tsParamTypes a)) > length (filter (\<lambda>t. t = ''any'') (tsParamTypes b)) \<or>
         (length (filter (\<lambda>t. t = ''any'') (tsParamTypes a)) = length (filter (\<lambda>t. t = ''any'') (tsParamTypes b)) \<and>
          (length (signature a) < length (signature b) \<or>
           (length (signature a) = length (signature b) \<and>
            (lc (signature b) (signature a) > 0 \<or>
             (lc (signature b) (signature a) = 0 \<and>
              lc (generic_proto a) (generic_proto b) > 0)))))))))"
  using compareVariants_neg[of lc a b] compareVariants_pos[of lc a b]
  unfolding countArgsOfTypeAny_def by blast

section \<open>The defence against unknown names\<close>











section \<open>Arrays in the type-name translator\<close>

lemma stripArrayMarkers_replicate:
  "stripArrayMarkers True (replicate n (CHR ''['') @ body) ext =
     stripArrayMarkers True body (ext @ concat (replicate n ''[]''))"
  by (induction n arbitrary: ext) simp_all

lemma stripArrayMarkers_scalar:
  "\<not> prefix ''['' body \<Longrightarrow> stripArrayMarkers enc body ext = Inr (body, ext)"
  by (cases body) simp_all

lemma brackets_empty [simp]: "(concat (replicate n ''[]'') = []) = (n = 0)"
  by (cases n) simp_all

lemma brackets_one [simp]: "(concat (replicate n ''[]'') = ''[]'') = (n = 1)"
proof (cases n)
  case 0
  then show ?thesis by simp
next
  case (Suc m)
  then show ?thesis by (cases m) simp_all
qed

lemma decode_shape:
  assumes "bindE X (\<lambda>t1. bindE (Y t1) (\<lambda>t. Inr (t, a))) = Inr (t', e)"
  shows "e = a \<and> bindE X (\<lambda>t1. bindE (Y t1) (\<lambda>t. Inr (t, b))) = Inr (t', b)"
proof (cases X)
  case (Inl err)
  with assms show ?thesis by simp
next
  case (Inr t1)
  with assms show ?thesis by (cases "Y t1") simp_all
qed

lemma jniDecodeType_array:
  assumes nb: "\<not> prefix ''['' body" and d: "jniDecodeType body True = Inr (t, e)"
  shows "e = [] \<and> jniDecodeType (replicate n (CHR ''['') @ body) True = Inr (t, concat (replicate n ''[]''))"
proof -
  have s0: "stripArrayMarkers True body [] = Inr (body, [])"
    using stripArrayMarkers_scalar[OF nb] .
  have s1: "stripArrayMarkers True (replicate n (CHR ''['') @ body) [] = Inr (body, concat (replicate n ''[]''))"
    unfolding stripArrayMarkers_replicate using stripArrayMarkers_scalar[OF nb] by simp
  show ?thesis
    using d unfolding jniDecodeType_def s0 s1 bindE_simps prod.case
    by (rule decode_shape)
qed

lemma translate_shape:
  assumes "bindE A (\<lambda>t1. bindE (B t1) (\<lambda>(t2, s1). bindE (C t2) (\<lambda>m. bindE (G t2 s1 m) F0))) = Inr r0"
      and "\<And>x. F0 x = Inr r0 \<Longrightarrow> F1 x = r1"
  shows "bindE A (\<lambda>t1. bindE (B t1) (\<lambda>(t2, s1). bindE (C t2) (\<lambda>m. bindE (G t2 s1 m) F1))) = r1"
proof -
  from assms(1) obtain t1 where a: "A = Inr t1"
    and 1: "bindE (B t1) (\<lambda>(t2, s1). bindE (C t2) (\<lambda>m. bindE (G t2 s1 m) F0)) = Inr r0"
    by (auto simp: bindE_Inr_iff)
  from 1 obtain t2 s1 where b: "B t1 = Inr (t2, s1)"
    and 2: "bindE (C t2) (\<lambda>m. bindE (G t2 s1 m) F0) = Inr r0"
    by (auto simp: bindE_Inr_iff)
  from 2 obtain m where c: "C t2 = Inr m" and 3: "bindE (G t2 s1 m) F0 = Inr r0"
    by (auto simp: bindE_Inr_iff)
  from 3 obtain x where g: "G t2 s1 m = Inr x" and 4: "F0 x = Inr r0"
    by (auto simp: bindE_Inr_iff)
  show ?thesis using assms(2)[OF 4] by (simp add: a b c g)
qed

text \<open>
  Claim C3, as the code has it. Let \<open>body\<close> be a type string without array marker whose
  translation is \<open>elementType\<close>. With \<open>n\<close> array markers in front of it (and JNI strings
  expected), \<^verbatim>\<open>tsTypeName\<close> yields: for \<open>n = 0\<close> the translation unchanged; in return
  context the translation followed by \<open>n\<close> bracket pairs; in input context with \<open>n = 1\<close>
  the wrapper \<^verbatim>\<open>array_t<elementType>\<close>, whatever the element type is; and in input
  context with \<open>n > 1\<close> the type \<^verbatim>\<open>void\<close>, with the translation followed by the bracket
  pairs added to the unhandled types.
\<close>

theorem tsTypeName_arrays:
  assumes elem: "tsTypeName this body context True = Inr (elementType, this')"
      and scalar: "\<not> prefix ''['' body"
  shows "tsTypeName this (replicate n (CHR ''['') @ body) context True =
     (if n = 0 then Inr (elementType, this')
      else if context = eReturn then Inr (elementType @ concat (replicate n ''[]''), this')
      else if n = 1 then Inr (''array_t<'' @ elementType @ ''>'', this')
      else Inr (''void'',
                this'\<lparr>unhandledTypes :=
                        insert (elementType @ concat (replicate n ''[]'')) (unhandledTypes this')\<rparr>))"
proof -
  from elem obtain t e where d: "jniDecodeType body True = Inr (t, e)"
    by (auto simp: tsTypeName_def bindE_Inr_iff)
  have e: "e = []"
    and d': "jniDecodeType (replicate n (CHR ''['') @ body) True = Inr (t, concat (replicate n ''[]''))"
    using jniDecodeType_array[OF scalar d, of n] by simp_all
  have elem': "bindE (boxIfJavaPrimitive t) (\<lambda>typeName1.
     bindE (mapUnhandledTypesToJavaLangObject this typeName1) (\<lambda>(typeName2, this1).
     bindE (mapJavaPrimitivesToTypescript typeName2 context) (\<lambda>mappedType.
     bindE (if mappedType \<noteq> typeName2 \<or> typeName2 = ''void'' then Inr (mappedType, this1)
            else bindE (isIncludedClass this1 typeName2) (\<lambda>included.
                   if included
                   then bindE (getJavaAliasName this1 typeName2) (\<lambda>alias. Inr (alias, this1))
                   else Inr (''any'',
                             this1\<lparr>unhandledTypes := insert typeName2 (unhandledTypes this1)\<rparr>)))
       (\<lambda>(typeName, this2). Inr (typeName, this2))))) = Inr (elementType, this')"
    using elem unfolding tsTypeName_def d e by simp
  show ?thesis
    unfolding tsTypeName_def d' bindE_simps prod.case
    by (rule translate_shape[OF elem']) auto
qed


lemmas translator_defs =
  tsTypeName_def jniDecodeType_def matchObjectType_def jniAbbreviations_def replaceIfIn_def
  objectPrototypeKeys_def boxIfJavaPrimitive_def primitiveToObjectMap_def
  mapUnhandledTypesToJavaLangObject_def isIncludedClass_def classNameOnly_def
  genericTypeExp_def fixGenericNestedTypeName_def execRedundantOuter_def
  mapJavaPrimitivesToTypescript_def javaTypeToTypescriptType_def getJavaAliasName_def
  shortClassName_def isLineTerminator_def Let_def

text \<open>
  The theorem at \<^verbatim>\<open>int\<close> with one and two dimensions, and at a list with two.
\<close>

theorem tsTypeName_arrays_witness:
  "tsTypeName C3_state ''I'' eInput True = Inr (''integer_t'', C3_state)
   \<and> tsTypeName C3_state ''[I'' eInput True = Inr (''array_t<integer_t>'', C3_state)
   \<and> tsTypeName C3_state ''[[I'' eInput True =
       Inr (''void'', C3_state\<lparr>unhandledTypes := insert ''integer_t[][]'' (unhandledTypes C3_state)\<rparr>)
   \<and> tsTypeName C3_state ''[[I'' eReturn True = Inr (''number[][]'', C3_state)
   \<and> tsTypeName C3_state ''[[Ljava.util.List;'' eReturn True = Inr (''Java.List[][]'', C3_state)"
proof -
  have i: "tsTypeName C3_state ''I'' eInput True = Inr (''integer_t'', C3_state)"
    and r: "tsTypeName C3_state ''I'' eReturn True = Inr (''number'', C3_state)"
    and l: "tsTypeName C3_state ''Ljava.util.List;'' eReturn True = Inr (''Java.List'', C3_state)"
    by (simp_all add: translator_defs C3_state_def)
  have s: "\<not> prefix ''['' ''I''" "\<not> prefix ''['' ''Ljava.util.List;''"
    by simp_all
  show ?thesis
    using tsTypeName_arrays[OF i s(1), of "Suc 0"] tsTypeName_arrays[OF i s(1), of "Suc (Suc 0)"]
          tsTypeName_arrays[OF r s(1), of "Suc (Suc 0)"] tsTypeName_arrays[OF l s(2), of "Suc (Suc 0)"] i
    by simp
qed


text \<open>
  Claim C3 as stated fails where it sends any dimension of non-primitive elements to
  \<^verbatim>\<open>void\<close>: an array of strings as an input parameter is translated to the wrapper
  type, and nothing is recorded as unhandled.
\<close>

theorem tsTypeName_object_array_counterexample:
  "tsTypeName C3_state ''[Ljava.lang.String;'' eInput True = Inr (''array_t<string_t>'', C3_state)
   \<and> ''array_t<string_t>'' \<noteq> ''void''
   \<and> unhandledTypes C3_state = {}"
  by (simp add: translator_defs C3_state_def)

section \<open>Patterns and their matches\<close>

lemma matchHere_lits:
  "matchHere (map Lit xs @ r) b s = (\<exists>t. s = xs @ t \<and> matchHere r (b \<and> xs = []) t)"
proof (induction xs arbitrary: b s)
  case Nil
  then show ?case by simp
next
  case (Cons x xs)
  show ?case
  proof (cases s)
    case Nil
    then show ?thesis by simp
  next
    case (Cons c cs)
    then show ?thesis using Cons.IH[of False cs] by auto
  qed
qed

lemma matchHere_Eol [simp]: "matchHere [Eol] b s = (s = [])"
  by simp

lemma matchHere_lits_Eol: "matchHere (map Lit xs @ [Eol]) b s = (s = xs)"
  by (auto simp: matchHere_lits)

lemma matchHere_Bol_False [simp]: "matchHere (Bol # r) False s = False"
  by simp

lemma searchFrom_Bol: "searchFrom (Bol # r) b s = matchHere (Bol # r) b s"
  by (induction s arbitrary: b) simp_all

lemma regexpTest_Bol: "regexpTest (Bol # r) s = matchHere r True s"
  by (simp add: regexpTest_def searchFrom_Bol)

lemma searchFrom_lits_Eol:
  "xs \<noteq> [] \<Longrightarrow> searchFrom (map Lit xs @ [Eol]) b s = suffix xs s"
proof (induction s arbitrary: b)
  case Nil
  then show ?case by (simp add: matchHere_lits_Eol)
next
  case (Cons c cs)
  then show ?case by (auto simp: matchHere_lits_Eol suffix_Cons)
qed

lemma regexpTest_ends_with:
  "xs \<noteq> [] \<Longrightarrow> regexpTest (map Lit xs @ [Eol]) s = suffix xs s"
  by (simp add: regexpTest_def searchFrom_lits_Eol)



lemma literal_not_special:
  assumes "\<not> isSyntaxChar c"
  shows "c \<noteq> CHR ''^''" "c \<noteq> CHR ''$''" "c \<noteq> bs" "c \<noteq> CHR ''[''" "c \<noteq> CHR ''.''" "c \<noteq> CHR ''*''"
  using assms by (auto simp: isSyntaxChar_def)

lemma parseRegExp_literal:
  "\<not> isSyntaxChar c \<Longrightarrow> parseRegExp (c # cs) = map_option ((#) (Lit c)) (parseRegExp cs)"
  using literal_not_special[of c] by simp

lemma bs_neq [simp]: "bs \<noteq> CHR ''^''" "bs \<noteq> CHR ''$''" "bs \<noteq> CHR ''.''" "bs \<noteq> CHR ''[''"
  by (simp_all add: bs_def)

lemma parseRegExp_escaped:
  "parseRegExp (bs # CHR ''.'' # cs) = map_option ((#) (Lit CHR ''.'')) (parseRegExp cs)"
  "parseRegExp (bs # CHR ''$'' # cs) = map_option ((#) (Lit CHR ''$'')) (parseRegExp cs)"
  by simp_all

lemma map_option_Cons_append:
  "map_option ((#) x) (map_option ((@) xs) m) = map_option ((@) (x # xs)) m"
  by (cases m) simp_all

lemma parseRegExp_escapeDots:
  "list_all packageNameChar p \<Longrightarrow>
     parseRegExp (escapeDots p @ rest) = map_option ((@) (map Lit p)) (parseRegExp rest)"
proof (induction p)
  case Nil
  then show ?case by (simp add: escapeDots_def option.map_ident)
next
  case (Cons c p)
  then have ih: "parseRegExp (escapeDots p @ rest) = map_option ((@) (map Lit p)) (parseRegExp rest)"
    by simp
  show ?case
  proof (cases "c = CHR ''.''")
    case True
    have "escapeDots (c # p) @ rest = bs # c # (escapeDots p @ rest)"
      using True by (simp add: escapeDots_def)
    then show ?thesis
      using True ih by (auto simp only: parseRegExp_escaped map_option_Cons_append list.map)
  next
    case False
    with Cons.prems have lit: "\<not> isSyntaxChar c" by (simp add: packageNameChar_def)
    have "escapeDots (c # p) @ rest = c # (escapeDots p @ rest)"
      using False by (simp add: escapeDots_def)
    then show ?thesis
      using ih by (simp only: parseRegExp_literal[OF lit] map_option_Cons_append list.map)
  qed
qed

lemma parseRegExp_escapeDotsAndDollars:
  "list_all classNameChar p \<Longrightarrow>
     parseRegExp (escapeDotsAndDollars p @ rest) = map_option ((@) (map Lit p)) (parseRegExp rest)"
proof (induction p)
  case Nil
  then show ?case by (simp add: escapeDotsAndDollars_def option.map_ident)
next
  case (Cons c p)
  then have ih: "parseRegExp (escapeDotsAndDollars p @ rest) = map_option ((@) (map Lit p)) (parseRegExp rest)"
    by simp
  show ?case
  proof (cases "c = CHR ''.'' \<or> c = CHR ''$''")
    case True
    have "escapeDotsAndDollars (c # p) @ rest = bs # c # (escapeDotsAndDollars p @ rest)"
      using True by (auto simp: escapeDotsAndDollars_def)
    then show ?thesis
      using True ih by (auto simp only: parseRegExp_escaped map_option_Cons_append list.map)
  next
    case False
    with Cons.prems have lit: "\<not> isSyntaxChar c" by (simp add: classNameChar_def)
    have "escapeDotsAndDollars (c # p) @ rest = c # (escapeDotsAndDollars p @ rest)"
      using False by (simp add: escapeDotsAndDollars_def)
    then show ?thesis
      using ih by (simp only: parseRegExp_literal[OF lit] map_option_Cons_append list.map)
  qed
qed

lemma parseRegExp_class: "parseRegExp (''['' @ [bs] @ ''w'' @ [bs] @ ''$]+$'') = Some [Plus WordDollarClass, Eol]"
  by (simp add: bs_def)

lemma parseRegExp_end: "parseRegExp ''$'' = Some [Eol]"
  by simp

lemma escapeDots_append: "escapeDots (xs @ ys) = escapeDots xs @ escapeDots ys"
  by (simp add: escapeDots_def)



lemma no_star_suffix:
  assumes "list_all packageNameChar p"
  shows "\<not> suffix ''.*'' p" "\<not> suffix ''.**'' p"
proof -
  have "\<not> packageNameChar (CHR ''*'')"
    by (simp add: packageNameChar_def isSyntaxChar_def)
  then have "CHR ''*'' \<notin> set p"
    using assms unfolding list_all_iff by blast
  moreover have "CHR ''*'' \<in> set p" if "suffix ''.*'' p"
    using set_mono_suffix[OF that] by simp
  moreover have "CHR ''*'' \<in> set p" if "suffix ''.**'' p"
    using set_mono_suffix[OF that] by simp
  ultimately show "\<not> suffix ''.*'' p" "\<not> suffix ''.**'' p"
    by blast+
qed

lemma ends_star: "regexpTest [Lit CHR ''.'', Lit CHR ''*'', Eol] e = suffix ''.*'' e"
  using regexpTest_ends_with[of "''.*''" e] by simp

lemma ends_star_star: "regexpTest [Lit CHR ''.'', Lit CHR ''*'', Lit CHR ''*'', Eol] e = suffix ''.**'' e"
  using regexpTest_ends_with[of "''.**''" e] by simp

lemma escapeDots_class: "escapeDots (''['' @ [bs] @ ''w'' @ [bs] @ ''$]+$'') = ''['' @ [bs] @ ''w'' @ [bs] @ ''$]+$''"
  by (simp add: escapeDots_def bs_def)

lemma packageExpression_single:
  assumes p: "list_all packageNameChar p"
  shows "packageExpressionToRegExp (p @ ''.*'') =
           Inr (Bol # map Lit (p @ ''.'') @ [Plus WordDollarClass, Eol])"
proof -
  have pd: "list_all packageNameChar (p @ ''.'')"
    using p by (simp add: packageNameChar_def)
  have t: "suffix ''.*'' (p @ ''.*'')" by (simp add: suffix_def)
  have b: "butlast (p @ ''.*'') = p @ ''.''" by (simp add: butlast_append)
  have "parseRegExp (''^'' @ escapeDots ((p @ ''.'') @ ''['' @ [bs] @ ''w'' @ [bs] @ ''$]+$''))
        = Some (Bol # map Lit (p @ ''.'') @ [Plus WordDollarClass, Eol])"
    unfolding escapeDots_append[of "p @ ''.''"] escapeDots_class
    using parseRegExp_escapeDots[OF pd, of "''['' @ [bs] @ ''w'' @ [bs] @ ''$]+$''"]
          parseRegExp_class
    by simp
  then show ?thesis
    unfolding packageExpressionToRegExp_def ends_star newRegExp_def Let_def
    using t b by simp
qed

lemma packageExpression_recursive:
  assumes p: "list_all packageNameChar p"
  shows "packageExpressionToRegExp (p @ ''.**'') = Inr (Bol # map Lit (p @ ''.''))"
proof -
  have pd: "list_all packageNameChar (p @ ''.'')"
    using p by (simp add: packageNameChar_def)
  have t1: "\<not> suffix ''.*'' (p @ ''.**'')" by (simp add: suffix_to_prefix)
  have t2: "suffix ''.**'' (p @ ''.**'')" by (simp add: suffix_def)
  have b: "take (length (p @ ''.**'') - 2) (p @ ''.**'') = p @ ''.''" by simp
  have "parseRegExp (''^'' @ escapeDots (p @ ''.'')) = Some (Bol # map Lit (p @ ''.''))"
    using parseRegExp_escapeDots[OF pd, of "[]"] by simp
  then show ?thesis
    unfolding packageExpressionToRegExp_def ends_star ends_star_star newRegExp_def Let_def
    using t1 t2 b by simp
qed

lemma packageExpression_bare:
  assumes p: "list_all packageNameChar p"
  shows "packageExpressionToRegExp p = Inr (Bol # map Lit p)"
proof -
  have "parseRegExp (''^'' @ escapeDots p) = Some (Bol # map Lit p)"
    using parseRegExp_escapeDots[OF p, of "[]"] by simp
  then show ?thesis
    unfolding packageExpressionToRegExp_def ends_star ends_star_star newRegExp_def Let_def
    using no_star_suffix[OF p] by simp
qed

lemma seedPattern_exact:
  assumes q: "list_all classNameChar q"
  shows "newRegExp (''^'' @ escapeDotsAndDollars q @ ''$'') = Inr (Bol # map Lit q @ [Eol])"
  using parseRegExp_escapeDotsAndDollars[OF q, of "''$''"] parseRegExp_end
  by (simp add: newRegExp_def)



lemma regexpTest_exact: "regexpTest (Bol # map Lit q @ [Eol]) s = (s = q)"
  unfolding regexpTest_Bol matchHere_lits_Eol ..







section \<open>The required core classes\<close>

lemma inWhiteList_iff:
  "inWhiteList this c =
     (list_ex (\<lambda>ns. regexpTest ns c) (includedPatterns this)
      \<and> \<not> regexpTest [Lit CHR ''$'', Plus DigitClass, Eol] c)"
  by (simp add: inWhiteList_def Let_def)

lemma inWhiteList_mono:
  assumes "set (includedPatterns this) \<subseteq> set (includedPatterns this')" and "inWhiteList this c"
  shows "inWhiteList this' c"
  using assms unfolding inWhiteList_iff list_ex_iff by blast

lemma addSeeds_patterns:
  "addSeeds this seeds = Inr this' \<Longrightarrow> set (includedPatterns this) \<subseteq> set (includedPatterns this')"
proof (induction seeds arbitrary: this)
  case Nil
  then show ?case by simp
next
  case (Cons c seeds)
  show ?case
  proof (cases "inWhiteList this c")
    case True
    with Cons.prems have "addSeeds this seeds = Inr this'" by simp
    then show ?thesis by (rule Cons.IH)
  next
    case False
    with Cons.prems obtain pattern where
      "addSeeds (this\<lparr>includedPatterns := includedPatterns this @ [pattern]\<rparr>) seeds = Inr this'"
      by (auto simp: bindE_Inr_iff)
    from Cons.IH[OF this] show ?thesis by simp
  qed
qed

lemma addSeeds_admits:
  assumes "addSeeds this seeds = Inr this'" and "c \<in> set seeds"
      and "list_all classNameChar c" and "\<not> regexpTest [Lit CHR ''$'', Plus DigitClass, Eol] c"
  shows "inWhiteList this' c"
  using assms(1,2)
proof (induction seeds arbitrary: this)
  case Nil
  then show ?case by simp
next
  case (Cons x seeds)
  show ?case
  proof (cases "inWhiteList this x")
    case True
    with Cons.prems(1) have rest: "addSeeds this seeds = Inr this'" by simp
    show ?thesis
    proof (cases "c = x")
      case True
      with \<open>inWhiteList this x\<close> show ?thesis
        using inWhiteList_mono[OF addSeeds_patterns[OF rest]] by blast
    next
      case False
      with Cons.prems(2) have "c \<in> set seeds" by simp
      from Cons.IH[OF rest this] show ?thesis .
    qed
  next
    case False
    with Cons.prems(1) obtain pattern where
      pat: "newRegExp (''^'' @ escapeDotsAndDollars x @ ''$'') = Inr pattern"
      and rest: "addSeeds (this\<lparr>includedPatterns := includedPatterns this @ [pattern]\<rparr>) seeds = Inr this'"
      by (auto simp: bindE_Inr_iff)
    show ?thesis
    proof (cases "c = x")
      case True
      have "pattern = Bol # map Lit c @ [Eol]"
        using pat seedPattern_exact[OF assms(3)] True by simp
      then have "regexpTest pattern c" by (simp add: regexpTest_exact)
      then have "inWhiteList (this\<lparr>includedPatterns := includedPatterns this @ [pattern]\<rparr>) c"
        using assms(4) by (simp add: inWhiteList_iff)
      then show ?thesis
        using inWhiteList_mono[OF addSeeds_patterns[OF rest]] by blast
    next
      case False
      with Cons.prems(2) have "c \<in> set seeds" by simp
      from Cons.IH[OF rest this] show ?thesis .
    qed
  qed
qed

lemma mapE_total:
  "(\<And>x. x \<in> set xs \<Longrightarrow> \<exists>y. f x = Inr y) \<Longrightarrow> \<exists>ys. mapE f xs = Inr ys"
proof (induction xs)
  case Nil
  then show ?case by simp
next
  case (Cons x xs)
  from Cons.prems[of x] obtain y where y: "f x = Inr y" by auto
  from Cons.IH Cons.prems obtain ys where "mapE f xs = Inr ys" by auto
  with y show ?case by simp
qed

lemma addSeeds_total:
  "(\<And>c. c \<in> set seeds \<Longrightarrow> list_all classNameChar c) \<Longrightarrow> \<exists>this'. addSeeds this seeds = Inr this'"
proof (induction seeds arbitrary: this)
  case Nil
  then show ?case by simp
next
  case (Cons x seeds)
  have x: "newRegExp (''^'' @ escapeDotsAndDollars x @ ''$'') = Inr (Bol # map Lit x @ [Eol])"
    using seedPattern_exact[of x] Cons.prems[of x] by simp
  show ?case
    using Cons.IH[of this] Cons.IH[of "this\<lparr>includedPatterns := includedPatterns this @ [Bol # map Lit x @ [Eol]]\<rparr>"]
          Cons.prems x
    by (cases "inWhiteList this x") auto
qed

lemma core_class_names:
  "list_all classNameChar ''java.lang.Object''" "list_all classNameChar ''java.lang.String''"
  "\<not> regexpTest [Lit CHR ''$'', Plus DigitClass, Eol] ''java.lang.Object''"
  "\<not> regexpTest [Lit CHR ''$'', Plus DigitClass, Eol] ''java.lang.String''"
  by (simp_all add: classNameChar_def isSyntaxChar_def bs_def regexpTest_def)

text \<open>
  Claim C10. Whatever the configured packages and classes are, when the constructor
  returns, \<^verbatim>\<open>inWhiteList\<close> admits \<^verbatim>\<open>java.lang.Object\<close> and \<^verbatim>\<open>java.lang.String\<close>: a seed
  that no pattern admits gets an exact pattern of its own, and patterns are only added.
  The constructor returns for every configuration whose package expressions are a
  package name, optionally followed by \<^verbatim>\<open>.*\<close> or \<^verbatim>\<open>.**\<close>, and whose class names are made
  of dots, dollars and characters that stand for themselves in a pattern (the empty
  lists included).
\<close>

theorem required_core_classes_whitelisted:
  "(ClassesMap_constructor options = Inr this \<longrightarrow>
      inWhiteList this ''java.lang.Object'' \<and> inWhiteList this ''java.lang.String'')
   \<and> ((\<forall>e\<in>set (opt_packages options).
          \<exists>p. list_all packageNameChar p \<and> (e = p \<or> e = p @ ''.*'' \<or> e = p @ ''.**''))
       \<and> (\<forall>c\<in>set (opt_classes options). list_all classNameChar c)
       \<longrightarrow> (\<exists>this'. ClassesMap_constructor options = Inr this'))"
proof (intro conjI impI)
  assume "ClassesMap_constructor options = Inr this"
  then obtain patterns where
    seeds: "addSeeds
         \<lparr>unhandledTypes = {}, classes = Map.empty, includedPatterns = patterns,
          shortToLongNameMap = None, allClasses = {}, allExcludedClasses = {},
          interfaceDepthCache = Map.empty\<rparr>
         (remdups (requiredCoreClasses @ opt_classes options)) = Inr this"
    by (auto simp: ClassesMap_constructor_def bindE_Inr_iff)
  have "''java.lang.Object'' \<in> set (remdups (requiredCoreClasses @ opt_classes options))"
    by (simp add: requiredCoreClasses_def)
  from addSeeds_admits[OF seeds this core_class_names(1,3)]
  show "inWhiteList this ''java.lang.Object''" .
  have "''java.lang.String'' \<in> set (remdups (requiredCoreClasses @ opt_classes options))"
    by (simp add: requiredCoreClasses_def)
  from addSeeds_admits[OF seeds this core_class_names(2,4)]
  show "inWhiteList this ''java.lang.String''" .
next
  assume a: "(\<forall>e\<in>set (opt_packages options).
          \<exists>p. list_all packageNameChar p \<and> (e = p \<or> e = p @ ''.*'' \<or> e = p @ ''.**''))
       \<and> (\<forall>c\<in>set (opt_classes options). list_all classNameChar c)"
  have "\<exists>y. packageExpressionToRegExp e = Inr y" if "e \<in> set (opt_packages options)" for e
  proof -
    from a that obtain p where "list_all packageNameChar p" "e = p \<or> e = p @ ''.*'' \<or> e = p @ ''.**''"
      by blast
    then show ?thesis
      using packageExpression_single[of p] packageExpression_recursive[of p] packageExpression_bare[of p]
      by blast
  qed
  from mapE_total[of "opt_packages options" packageExpressionToRegExp, OF this]
  obtain patterns where pk: "mapE packageExpressionToRegExp (opt_packages options) = Inr patterns"
    by blast
  have cn: "list_all classNameChar c" if "c \<in> set (remdups (requiredCoreClasses @ opt_classes options))" for c
  proof -
    from that have "c = ''java.lang.Object'' \<or> c = ''java.lang.String'' \<or> c \<in> set (opt_classes options)"
      unfolding set_remdups set_append requiredCoreClasses_def by simp
    then show ?thesis
    proof (elim disjE)
      assume "c = ''java.lang.Object''"
      then show ?thesis using core_class_names(1) by (simp only:)
    next
      assume "c = ''java.lang.String''"
      then show ?thesis using core_class_names(2) by (simp only:)
    next
      assume "c \<in> set (opt_classes options)"
      with a show ?thesis by blast
    qed
  qed
  have "\<exists>this'. addSeeds this0 (remdups (requiredCoreClasses @ opt_classes options)) = Inr this'" for this0
    by (rule addSeeds_total) (rule cn)
  then show "\<exists>this'. ClassesMap_constructor options = Inr this'"
    by (simp add: ClassesMap_constructor_def pk)
qed


text \<open>The theorem at a configuration with two package expressions and one seed class.\<close>

theorem required_core_classes_whitelisted_witness:
  "\<exists>this. ClassesMap_constructor C10_options = Inr this
      \<and> inWhiteList this ''java.lang.Object'' \<and> inWhiteList this ''java.lang.String''"
proof -
  have e1: "\<exists>p. list_all packageNameChar p
      \<and> (''java.util.*'' = p \<or> ''java.util.*'' = p @ ''.*'' \<or> ''java.util.*'' = p @ ''.**'')"
    by (rule exI[of _ "''java.util''"]) (simp add: packageNameChar_def isSyntaxChar_def bs_def)
  have e2: "\<exists>p. list_all packageNameChar p
      \<and> (''com.redseal.featureset.**'' = p \<or> ''com.redseal.featureset.**'' = p @ ''.*''
          \<or> ''com.redseal.featureset.**'' = p @ ''.**'')"
    by (rule exI[of _ "''com.redseal.featureset''"])
       (simp add: packageNameChar_def isSyntaxChar_def bs_def)
  have c: "list_all classNameChar ''com.tinkerpop.gremlin.structure.Graph''"
    by (simp add: classNameChar_def isSyntaxChar_def bs_def)
  have h: "(\<forall>e\<in>set (opt_packages C10_options).
          \<exists>p. list_all packageNameChar p \<and> (e = p \<or> e = p @ ''.*'' \<or> e = p @ ''.**''))
       \<and> (\<forall>c\<in>set (opt_classes C10_options). list_all classNameChar c)"
    using e1 e2 c by (simp add: C10_options_def)
  from required_core_classes_whitelisted[of C10_options, THEN conjunct2, THEN mp, OF h]
  obtain this' where r: "ClassesMap_constructor C10_options = Inr this'" ..
  from required_core_classes_whitelisted[of C10_options this', THEN conjunct1, THEN mp, OF r] r
  show ?thesis by blast
qed

section \<open>The interface depth\<close>

lemma list_all2_unique:
  "list_all2 (\<lambda>x y. P x y \<and> (\<forall>y'. P x y' \<longrightarrow> y = y')) xs ys \<Longrightarrow> list_all2 P xs ys' \<Longrightarrow> ys = ys'"
proof (induction xs arbitrary: ys ys')
  case Nil
  then show ?case by simp
next
  case (Cons x xs)
  then show ?case by (auto simp: list_all2_Cons1)
qed

lemma hasDepth_functional: "hasDepth cls i d \<Longrightarrow> hasDepth cls i d' \<Longrightarrow> d = d'"
proof (induction arbitrary: d' rule: hasDepth.induct)
  case (1 intf cd depths d)
  from "1.prems" obtain cd' depths' where
    c: "cls intf = Some cd'" and l: "list_all2 (hasDepth cls) (interfaces cd') depths'"
    and d': "d' = (if depths' = [] then 0 else Max (set depths') + 1)"
    by (rule hasDepth.cases) blast
  from c "1.hyps"(1) have cd: "cd' = cd" by simp
  have "depths = depths'"
    using list_all2_unique[OF "1.IH"] l unfolding cd by blast
  with d' "1.hyps" show ?case by simp
qed

lemma hasDepth_parents:
  assumes "hasDepth cls i d" and "cls i = Some cd"
  shows "\<exists>ds. list_all2 (hasDepth cls) (interfaces cd) ds \<and> d = (if ds = [] then 0 else Max (set ds) + 1)"
  using assms(1)
proof (cases rule: hasDepth.cases)
  case (1 cd' depths)
  with assms(2) show ?thesis by auto
qed

lemma hasDepth_in_table: "hasDepth cls i d \<Longrightarrow> \<exists>cd. cls i = Some cd"
  by (rule hasDepth.cases) blast+

lemma onlyCacheGrows_refl [simp]: "onlyCacheGrows this this"
  by (simp add: onlyCacheGrows_def)

lemma onlyCacheGrows_trans: "onlyCacheGrows a b \<Longrightarrow> onlyCacheGrows b c \<Longrightarrow> onlyCacheGrows a c"
  unfolding onlyCacheGrows_def by (auto intro: map_le_trans)

lemma onlyCacheGrows_update:
  "interfaceDepthCache this i = None \<Longrightarrow>
     onlyCacheGrows this (this\<lparr>interfaceDepthCache := (interfaceDepthCache this)(i \<mapsto> d)\<rparr>)"
  by (auto simp: onlyCacheGrows_def map_le_def)

lemma cacheValid_update:
  "cacheValid this \<Longrightarrow> hasDepth (classes this) i d \<Longrightarrow>
     cacheValid (this\<lparr>interfaceDepthCache := (interfaceDepthCache this)(i \<mapsto> d)\<rparr>)"
  by (simp add: cacheValid_def)


lemma bindE_pair_Inr_iff:
  "(bindE m (\<lambda>(a, b). f a b) = Inr y) = (\<exists>a b. m = Inr (a, b) \<and> f a b = Inr y)"
  by (cases m) auto

lemma mapState_Cons_Inr:
  "(mapState f s (x # xs) = Inr (ds, s')) =
     (\<exists>y s1 ys. f s x = Inr (y, s1) \<and> mapState f s1 xs = Inr (ys, s') \<and> ds = y # ys)"
  by (auto simp: bindE_pair_Inr_iff)

lemma onlyCacheGrows_classes: "onlyCacheGrows a b \<Longrightarrow> classes b = classes a"
  by (simp add: onlyCacheGrows_def)

lemma onlyCacheGrows_lookup:
  "onlyCacheGrows a b \<Longrightarrow> interfaceDepthCache a i = Some d \<Longrightarrow> interfaceDepthCache b i = Some d"
  unfolding onlyCacheGrows_def map_le_def by (metis domI)

lemma mapState_depth_sound:
  assumes step: "\<And>s x y s'. cacheValid s \<Longrightarrow> interfaceDepth f s x = Inr (y, s') \<Longrightarrow>
      hasDepth (classes s) x y \<and> cacheValid s' \<and> onlyCacheGrows s s' \<and> interfaceDepthCache s' x = Some y"
  shows "cacheValid s \<Longrightarrow> mapState (interfaceDepth f) s ps = Inr (ds, s') \<Longrightarrow>
      list_all2 (hasDepth (classes s)) ps ds \<and> cacheValid s' \<and> onlyCacheGrows s s'
      \<and> map (interfaceDepthCache s') ps = map Some ds"
proof (induction ps arbitrary: s ds s')
  case Nil
  then show ?case by simp
next
  case (Cons x xs)
  from Cons.prems(2) obtain y s1 ys where
    x: "interfaceDepth f s x = Inr (y, s1)" and xs: "mapState (interfaceDepth f) s1 xs = Inr (ys, s')"
    and ds: "ds = y # ys"
    unfolding mapState_Cons_Inr by blast
  from step[OF Cons.prems(1) x] have
    1: "hasDepth (classes s) x y" "cacheValid s1" "onlyCacheGrows s s1" "interfaceDepthCache s1 x = Some y"
    by simp_all
  from Cons.IH[OF 1(2) xs] have
    2: "list_all2 (hasDepth (classes s1)) xs ys" "cacheValid s'" "onlyCacheGrows s1 s'"
       "map (interfaceDepthCache s') xs = map Some ys"
    by simp_all
  have c: "classes s1 = classes s" using 1(3) by (rule onlyCacheGrows_classes)
  have "interfaceDepthCache s' x = Some y" using onlyCacheGrows_lookup[OF 2(3) 1(4)] .
  then show ?case
    using 1 2 c ds onlyCacheGrows_trans[OF 1(3) 2(3)] by simp
qed

lemma interfaceDepth_sound:
  "cacheValid this \<Longrightarrow> interfaceDepth fuel this i = Inr (d, this') \<Longrightarrow>
     hasDepth (classes this) i d \<and> cacheValid this' \<and> onlyCacheGrows this this'
     \<and> interfaceDepthCache this' i = Some d"
proof (induction fuel arbitrary: this i d this')
  case 0
  then show ?case by simp
next
  case (Suc f)
  note valid = Suc.prems(1) and call = Suc.prems(2)
  show ?case
  proof (cases "interfaceDepthCache this i")
    case (Some d0)
    with call have "d = d0" "this' = this" by simp_all
    with Some valid show ?thesis by (simp add: cacheValid_def)
  next
    case None
    with call obtain cd where cd: "classes this i = Some cd"
      by (cases "classes this i") simp_all
    show ?thesis
    proof (cases "interfaces cd = []")
      case True
      with call None cd have r: "d = 0"
        "this' = this\<lparr>interfaceDepthCache := (interfaceDepthCache this)(i \<mapsto> 0)\<rparr>"
        by simp_all
      have h: "hasDepth (classes this) i 0"
        using hasDepth.intros[of "classes this" i cd "[]" 0] cd True by simp
      show ?thesis
        unfolding r using h cacheValid_update[OF valid h] onlyCacheGrows_update[OF None] by simp
    next
      case False
      with call None cd obtain depths this1 where
        ms: "mapState (interfaceDepth f) this (interfaces cd) = Inr (depths, this1)"
        and r: "d = Max (set depths) + 1"
          "this' = this1\<lparr>interfaceDepthCache := (interfaceDepthCache this1)(i \<mapsto> Max (set depths) + 1)\<rparr>"
        by (auto simp: bindE_pair_Inr_iff Let_def)
      from mapState_depth_sound[of f, OF Suc.IH valid ms] have
        1: "list_all2 (hasDepth (classes this)) (interfaces cd) depths" "cacheValid this1"
           "onlyCacheGrows this this1"
        by simp_all
      have ne: "depths \<noteq> []" using 1(1) False by auto
      have h: "hasDepth (classes this) i d"
        using hasDepth.intros[of "classes this" i cd depths d] cd 1(1) ne r(1) by simp
      have c1: "classes this1 = classes this" using 1(3) by (rule onlyCacheGrows_classes)
      have h1: "hasDepth (classes this1) i (Max (set depths) + 1)" using h c1 r(1) by simp
      have g: "onlyCacheGrows this this'"
        using 1(3) None unfolding r(2) onlyCacheGrows_def map_le_def by auto
      show ?thesis
        using h g cacheValid_update[OF 1(2) h1] unfolding r by simp
    qed
  qed
qed


lemma below_Max:
  fixes d :: nat
  assumes "d = Max (set ds) + 1" and "d < g"
  shows "\<forall>dp\<in>set ds. dp < g - 1" "\<forall>dp\<in>set ds. dp < g"
proof -
  have le: "dp \<le> Max (set ds)" if "dp \<in> set ds" for dp
    using that by simp
  show "\<forall>dp\<in>set ds. dp < g - 1"
  proof
    fix dp assume "dp \<in> set ds"
    from le[OF this] assms show "dp < g - 1" by arith
  qed
  show "\<forall>dp\<in>set ds. dp < g"
  proof
    fix dp assume "dp \<in> set ds"
    from le[OF this] assms show "dp < g" by arith
  qed
qed

lemma mapState_depth_total:
  assumes "list_all2 Q ps ds"
      and q: "\<And>p dp s. Q p dp \<Longrightarrow> dp < f \<Longrightarrow> classes s = cls \<Longrightarrow> cacheValid s \<Longrightarrow>
                \<exists>s'. interfaceDepth f s p = Inr (dp, s')"
      and "\<forall>dp\<in>set ds. dp < f" and "classes s = cls" and "cacheValid s"
  shows "\<exists>s'. mapState (interfaceDepth f) s ps = Inr (ds, s')"
  using assms(1,3,4,5)
proof (induction ps ds arbitrary: s rule: list_all2_induct)
  case Nil
  then show ?case by simp
next
  case (Cons p ps dp ds)
  from Cons.prems(1) have dp: "dp < f" and rest: "\<forall>dp\<in>set ds. dp < f" by simp_all
  from q[OF Cons.hyps(1) dp Cons.prems(2,3)]
  obtain s1 where p: "interfaceDepth f s p = Inr (dp, s1)" ..
  from interfaceDepth_sound[OF Cons.prems(3) p] have
    s1: "cacheValid s1" "classes s1 = cls"
    using Cons.prems(2) by (auto dest: onlyCacheGrows_classes)
  from Cons.IH[OF rest s1(2,1)]
  obtain s' where "mapState (interfaceDepth f) s1 ps = Inr (ds, s')" ..
  with p show ?case by simp
qed

lemma interfaceDepth_total:
  "hasDepth cls i d \<Longrightarrow> classes this = cls \<Longrightarrow> cacheValid this \<Longrightarrow> d < fuel \<Longrightarrow>
     \<exists>this'. interfaceDepth fuel this i = Inr (d, this')"
proof (induction arbitrary: this fuel rule: hasDepth.induct)
  case (1 intf cd depths d)
  from "1.prems"(3) obtain f where fuel: "fuel = Suc f" by (cases fuel) simp_all
  have l: "list_all2 (hasDepth cls) (interfaces cd) depths"
    using "1.IH" by (rule list_all2_mono) simp
  have h: "hasDepth cls intf d"
    using hasDepth.intros[OF "1.hyps"(1) l "1.hyps"(2)] .
  show ?case
  proof (cases "interfaceDepthCache this intf")
    case (Some d0)
    with "1.prems"(1,2) have "hasDepth cls intf d0" by (auto simp: cacheValid_def)
    with h have "d0 = d" using hasDepth_functional by blast
    with Some show ?thesis by (simp add: fuel)
  next
    case None
    show ?thesis
    proof (cases "interfaces cd = []")
      case True
      with l have "depths = []" by simp
      with "1.hyps"(2) have "d = 0" by simp
      with None True "1.hyps"(1) "1.prems"(1) show ?thesis by (simp add: fuel)
    next
      case False
      with l have ne: "depths \<noteq> []" by auto
      with "1.hyps"(2) have d: "d = Max (set depths) + 1" by simp
      have small: "\<forall>dp\<in>set depths. dp < f"
        using below_Max(1)[OF d "1.prems"(3)] fuel by simp
      have "\<exists>s'. mapState (interfaceDepth f) this (interfaces cd) = Inr (depths, s')"
      proof (rule mapState_depth_total[OF "1.IH" _ small "1.prems"(1,2)])
        fix p dp s
        assume "hasDepth cls p dp \<and>
          (\<forall>x. classes x = cls \<longrightarrow> cacheValid x \<longrightarrow>
             (\<forall>xa>dp. \<exists>this'. interfaceDepth xa x p = Inr (dp, this')))"
          and "dp < f" "classes s = cls" "cacheValid s"
        then show "\<exists>s'. interfaceDepth f s p = Inr (dp, s')" by blast
      qed
      then obtain s' where "mapState (interfaceDepth f) this (interfaces cd) = Inr (depths, s')" ..
      with None False "1.hyps"(1) "1.prems"(1) d show ?thesis by (simp add: fuel Let_def)
    qed
  qed
qed

lemma interfaceDepth_cached:
  "interfaceDepthCache this i = Some d \<Longrightarrow> interfaceDepth (Suc n) this i = Inr (d, this)"
  by simp


text \<open>
  Claim C6. In a state whose cache is valid, a depth query that returns, returns the
  depth of the class. Conversely, for a class \<open>C\<close> of depth \<open>d\<close> the query returns \<open>d\<close> as
  soon as the recursion bound exceeds \<open>d\<close>; the result is stored in the cache, nothing
  else changes, and every later query for \<open>C\<close> returns \<open>d\<close> again and leaves the state as
  it is. The value obeys the recurrence: it is 0 when the class-table entry of \<open>C\<close> lists
  no parent, and otherwise it is 1 more than the largest of the depths that the queries
  for the parents return.
\<close>

theorem interfaceDepth_recurrence:
  assumes valid: "cacheValid this"
  shows "(interfaceDepth fuel this C = Inr (d, this') \<longrightarrow> hasDepth (classes this) C d)
    \<and> (hasDepth (classes this) C d \<and> d < fuel \<longrightarrow>
        (\<exists>this1. interfaceDepth fuel this C = Inr (d, this1)
           \<and> interfaceDepthCache this1 C = Some d \<and> onlyCacheGrows this this1 \<and> cacheValid this1
           \<and> (\<forall>n. interfaceDepth (Suc n) this1 C = Inr (d, this1))
           \<and> (\<forall>cd. classes this C = Some cd \<longrightarrow>
                 (interfaces cd = [] \<longrightarrow> d = 0)
                 \<and> (interfaces cd \<noteq> [] \<longrightarrow>
                      (\<exists>depths this2. mapState (interfaceDepth fuel) this1 (interfaces cd) = Inr (depths, this2)
                          \<and> d = Max (set depths) + 1)))))"
proof (intro conjI impI)
  assume "interfaceDepth fuel this C = Inr (d, this')"
  from interfaceDepth_sound[OF valid this] show "hasDepth (classes this) C d" by simp
next
  assume a: "hasDepth (classes this) C d \<and> d < fuel"
  then obtain this1 where call: "interfaceDepth fuel this C = Inr (d, this1)"
    using interfaceDepth_total[of "classes this" C d this fuel] valid by auto
  from interfaceDepth_sound[OF valid call] have
    s: "interfaceDepthCache this1 C = Some d" "onlyCacheGrows this this1" "cacheValid this1"
    by simp_all
  have c1: "classes this1 = classes this" using s(2) by (rule onlyCacheGrows_classes)
  have rec: "(interfaces cd = [] \<longrightarrow> d = 0)
       \<and> (interfaces cd \<noteq> [] \<longrightarrow>
            (\<exists>depths this2. mapState (interfaceDepth fuel) this1 (interfaces cd) = Inr (depths, this2)
                \<and> d = Max (set depths) + 1))"
    if cd: "classes this C = Some cd" for cd
  proof -
    from hasDepth_parents[OF a[THEN conjunct1] cd] obtain ds where
      ds: "list_all2 (hasDepth (classes this)) (interfaces cd) ds"
      and d: "d = (if ds = [] then 0 else Max (set ds) + 1)"
      by blast
    show ?thesis
    proof (intro conjI impI)
      assume "interfaces cd = []"
      with ds d show "d = 0" by simp
    next
      assume ne: "interfaces cd \<noteq> []"
      with ds have dne: "ds \<noteq> []" by auto
      with d have dm: "d = Max (set ds) + 1" by simp
      have small: "\<forall>dp\<in>set ds. dp < fuel"
        using below_Max(2)[OF dm] a by simp
      from mapState_depth_total[OF ds interfaceDepth_total small c1 s(3)]
      obtain this2 where "mapState (interfaceDepth fuel) this1 (interfaces cd) = Inr (ds, this2)" ..
      with dm show "\<exists>depths this2. mapState (interfaceDepth fuel) this1 (interfaces cd) = Inr (depths, this2)
                \<and> d = Max (set depths) + 1"
        by blast
    qed
  qed
  show "\<exists>this1. interfaceDepth fuel this C = Inr (d, this1)
           \<and> interfaceDepthCache this1 C = Some d \<and> onlyCacheGrows this this1 \<and> cacheValid this1
           \<and> (\<forall>n. interfaceDepth (Suc n) this1 C = Inr (d, this1))
           \<and> (\<forall>cd. classes this C = Some cd \<longrightarrow>
                 (interfaces cd = [] \<longrightarrow> d = 0)
                 \<and> (interfaces cd \<noteq> [] \<longrightarrow>
                      (\<exists>depths this2. mapState (interfaceDepth fuel) this1 (interfaces cd) = Inr (depths, this2)
                          \<and> d = Max (set depths) + 1)))"
    using call s interfaceDepth_cached[OF s(1)] rec by blast
qed


text \<open>The class table of the examples, and the depths of its classes.\<close>

lemma exampleClasses_lookup:
  "exampleClasses ''java.lang.Object'' =
     Some \<lparr>fullName = ''java.lang.Object'', interfaces = [], variantsDict = Map.empty\<rparr>"
  "exampleClasses ''java.util.Collection'' =
     Some \<lparr>fullName = ''java.util.Collection'', interfaces = [''java.lang.Object''],
         variantsDict =
           [''size'' \<mapsto> [''size()I'' \<mapsto> size_Collection],
            ''add'' \<mapsto> [''add(Ljava/lang/Object;)Z'' \<mapsto> add_Collection]]\<rparr>"
  "exampleClasses ''java.util.List'' =
     Some \<lparr>fullName = ''java.util.List'', interfaces = [''java.util.Collection''],
         variantsDict =
           [''size'' \<mapsto> [''size()I'' \<mapsto> size_Collection],
            ''add'' \<mapsto> [''add(Ljava/lang/Object;)Z'' \<mapsto> add_Collection,
                        ''add(ILjava/lang/Object;)V'' \<mapsto> add_List_index]]\<rparr>"
  by (simp_all add: exampleClasses_def)

lemma exampleClasses_depths:
  "hasDepth exampleClasses ''java.lang.Object'' 0"
  "hasDepth exampleClasses ''java.util.Collection'' 1"
  "hasDepth exampleClasses ''java.util.List'' 2"
proof -
  show 0: "hasDepth exampleClasses ''java.lang.Object'' 0"
    by (rule hasDepth.intros[of exampleClasses "''java.lang.Object''" _ "[]", OF exampleClasses_lookup(1)])
       simp_all
  show 1: "hasDepth exampleClasses ''java.util.Collection'' 1"
    by (rule hasDepth.intros[of exampleClasses "''java.util.Collection''" _ "[0]",
                 OF exampleClasses_lookup(2)])
       (simp_all add: 0)
  show "hasDepth exampleClasses ''java.util.List'' 2"
    by (rule hasDepth.intros[of exampleClasses "''java.util.List''" _ "[1]",
                 OF exampleClasses_lookup(3)])
       (simp_all add: 1[simplified])
qed

lemma cacheValid_exampleMap: "cacheValid exampleMap"
  by (simp add: cacheValid_def exampleMap_def)


text \<open>
  The theorem at the example: the depth of \<^verbatim>\<open>java.util.List\<close> is 2, one more than the
  depth of its parent, and the depth of \<^verbatim>\<open>java.lang.Object\<close> is 0.
\<close>

theorem interfaceDepth_recurrence_witness:
  "(\<exists>this1. interfaceDepth 3 exampleMap ''java.util.List'' = Inr (2, this1)
      \<and> interfaceDepthCache this1 ''java.util.List'' = Some 2
      \<and> interfaceDepth (Suc 0) this1 ''java.util.List'' = Inr (2, this1)
      \<and> (\<exists>depths this2.
            mapState (interfaceDepth 3) this1 [''java.util.Collection''] = Inr (depths, this2)
            \<and> (2::nat) = Max (set depths) + 1))
   \<and> (\<exists>this1. interfaceDepth 1 exampleMap ''java.lang.Object'' = Inr (0, this1))"
proof -
  have c: "classes exampleMap = exampleClasses" by (simp add: exampleMap_def)
  have l: "hasDepth (classes exampleMap) ''java.util.List'' 2 \<and> (2::nat) < 3"
    using exampleClasses_depths(3) c by simp
  have o: "hasDepth (classes exampleMap) ''java.lang.Object'' 0 \<and> (0::nat) < 1"
    using exampleClasses_depths(1) c by simp
  from interfaceDepth_recurrence[OF cacheValid_exampleMap, of 3 "''java.util.List''" 2,
         THEN conjunct2, THEN mp, OF l]
  obtain this1 where
    1: "interfaceDepth 3 exampleMap ''java.util.List'' = Inr (2, this1)"
       "interfaceDepthCache this1 ''java.util.List'' = Some 2"
       "\<forall>n. interfaceDepth (Suc n) this1 ''java.util.List'' = Inr (2, this1)"
       "\<forall>cd. classes exampleMap ''java.util.List'' = Some cd \<longrightarrow>
                 (interfaces cd = [] \<longrightarrow> (2::nat) = 0)
                 \<and> (interfaces cd \<noteq> [] \<longrightarrow>
                      (\<exists>depths this2. mapState (interfaceDepth 3) this1 (interfaces cd) = Inr (depths, this2)
                          \<and> (2::nat) = Max (set depths) + 1))"
    by blast
  from 1(4) exampleClasses_lookup(3) c have
    2: "\<exists>depths this2.
            mapState (interfaceDepth 3) this1 [''java.util.Collection''] = Inr (depths, this2)
            \<and> (2::nat) = Max (set depths) + 1"
    by simp
  from interfaceDepth_recurrence[OF cacheValid_exampleMap, of 1 "''java.lang.Object''" 0,
         THEN conjunct2, THEN mp, OF o]
  have 3: "\<exists>this1. interfaceDepth 1 exampleMap ''java.lang.Object'' = Inr (0, this1)"
    by blast
  from 1(1,2) 1(3)[rule_format, of 0] 2 3 show ?thesis by blast
qed

section \<open>The inherited interfaces\<close>

lemma fold_addTodo_doneSet [simp]: "doneSet (fold addTodo ps w) = doneSet w"
  by (induction ps arbitrary: w) (simp_all add: addTodo_def)

lemma fold_addTodo_todo_set:
  "set (todo (fold addTodo ps w)) = set (todo w) \<union> (set ps - set (doneSet w))"
proof (induction ps arbitrary: w)
  case Nil
  then show ?case by simp
next
  case (Cons p ps)
  have d: "doneSet (addTodo p w) = doneSet w" by (simp add: addTodo_def)
  have t: "set (todo (addTodo p w)) = set (todo w) \<union> ({p} - set (doneSet w))"
    by (auto simp: addTodo_def)
  show ?case
    unfolding fold_simps Cons.IH d t by auto
qed

lemma fold_addTodo_todo_prefix: "prefix (todo w) (todo (fold addTodo ps w))"
proof (induction ps arbitrary: w)
  case Nil
  then show ?case by simp
next
  case (Cons p ps)
  have "prefix (todo w) (todo (addTodo p w))" by (simp add: addTodo_def)
  with Cons.IH[of "addTodo p w"] show ?case
    using prefix_order.order_trans by fastforce
qed

lemma setDone_simps:
  "todo (setDone x w) = removeAll x (todo w)"
  "doneSet (setDone x w) = (if x \<in> set (doneSet w) then doneSet w else doneSet w @ [x])"
  by (simp_all add: setDone_def)

lemma inherited_direct: "set direct \<subseteq> inherited cls direct"
  by (auto simp: inherited_def)

lemma inherited_parent:
  "x \<in> inherited cls direct \<Longrightarrow> (x, p) \<in> parentRel cls \<Longrightarrow> p \<in> inherited cls direct"
  unfolding inherited_def by (meson Image_iff rtrancl.rtrancl_into_rtrancl)

lemma workInv_initial: "workInv cls direct (fold addTodo direct newWork)"
  unfolding workInv_def fold_addTodo_doneSet fold_addTodo_todo_set
  using inherited_direct[of direct cls] by (simp add: newWork_def)

lemma workInv_step:
  assumes inv: "workInv cls direct w" and t: "todo w = item # rest" and c: "cls item = Some cd"
  shows "workInv cls direct (setDone item (fold addTodo (interfaces cd) w))"
    and "doneSet (setDone item (fold addTodo (interfaces cd) w)) = doneSet w @ [item]"
    and "item \<in> inherited cls direct" and "item \<notin> set (doneSet w)"
proof -
  let ?w1 = "fold addTodo (interfaces cd) w"
  from inv t have nd: "item \<notin> set (doneSet w)" and ir: "item \<in> inherited cls direct"
    by (auto simp: workInv_def)
  show "item \<notin> set (doneSet w)" by (rule nd)
  show "item \<in> inherited cls direct" by (rule ir)
  show d: "doneSet (setDone item ?w1) = doneSet w @ [item]"
    using nd by (simp add: setDone_simps)
  have par: "set (interfaces cd) \<subseteq> inherited cls direct"
    using inherited_parent[OF ir] c by (auto simp: parentRel_def)
  have pr: "(item, p) \<in> parentRel cls \<Longrightarrow> p \<in> set (interfaces cd)" for p
    using c by (auto simp: parentRel_def)
  have ts: "set (todo (setDone item ?w1)) = (set (todo w) \<union> (set (interfaces cd) - set (doneSet w))) - {item}"
    by (simp add: setDone_simps fold_addTodo_todo_set)
  show "workInv cls direct (setDone item ?w1)"
    unfolding workInv_def d ts
    using inv par pr c t nd unfolding workInv_def
    by (auto simp: domI)
qed


lemma workForEach_sound:
  "workInv cls direct w \<Longrightarrow>
   workForEach fuel (\<lambda>intf w. case cls intf of None \<Rightarrow> Inl TypeError
                               | Some cd \<Rightarrow> Inr (fold addTodo (interfaces cd) w)) w = Inr w' \<Longrightarrow>
   workInv cls direct w' \<and> todo w' = []"
proof (induction fuel arbitrary: w)
  case 0
  then show ?case by (simp split: if_splits)
next
  case (Suc f)
  show ?case
  proof (cases "todo w")
    case Nil
    with Suc.prems show ?thesis by simp
  next
    case (Cons item rest)
    with Suc.prems(2) obtain cd where cd: "cls item = Some cd"
      by (cases "cls item") simp_all
    with Suc.prems(2) Cons have
      "workForEach f (\<lambda>intf w. case cls intf of None \<Rightarrow> Inl TypeError
                               | Some cd \<Rightarrow> Inr (fold addTodo (interfaces cd) w))
         (setDone item (fold addTodo (interfaces cd) w)) = Inr w'"
      by simp
    from Suc.IH[OF workInv_step(1)[OF Suc.prems(1) Cons cd] this] show ?thesis .
  qed
qed

lemma workForEach_total:
  assumes fin: "finite (inherited cls direct)" and dom: "inherited cls direct \<subseteq> dom cls"
  shows "workInv cls direct w \<Longrightarrow> card (inherited cls direct - set (doneSet w)) \<le> fuel \<Longrightarrow>
   \<exists>w'. workForEach fuel (\<lambda>intf w. case cls intf of None \<Rightarrow> Inl TypeError
                               | Some cd \<Rightarrow> Inr (fold addTodo (interfaces cd) w)) w = Inr w'"
proof (induction fuel arbitrary: w)
  case 0
  have f: "finite (inherited cls direct - set (doneSet w))" using fin by simp
  from "0.prems"(2) have "card (inherited cls direct - set (doneSet w)) = 0" by simp
  with f have e: "inherited cls direct - set (doneSet w) = {}" by simp
  from "0.prems"(1) have t: "set (todo w) \<subseteq> inherited cls direct"
    and d: "set (todo w) \<inter> set (doneSet w) = {}"
    by (simp_all add: workInv_def)
  have "todo w = []"
  proof (cases "todo w")
    case Nil
    then show ?thesis .
  next
    case (Cons x xs)
    then have x: "x \<in> set (todo w)" by simp
    with t have "x \<in> inherited cls direct" by (rule subsetD)
    with e have "x \<in> set (doneSet w)" by (metis Diff_iff empty_iff)
    with x d show ?thesis by (metis IntI empty_iff)
  qed
  then show ?case by simp
next
  case (Suc f)
  show ?case
  proof (cases "todo w")
    case Nil
    then show ?thesis by simp
  next
    case (Cons item rest)
    from Suc.prems(1) have "set (todo w) \<subseteq> inherited cls direct"
      by (simp add: workInv_def)
    with Cons have ir: "item \<in> inherited cls direct" by simp
    with dom obtain cd where cd: "cls item = Some cd" by blast
    note st = workInv_step[OF Suc.prems(1) Cons cd]
    let ?X = "inherited cls direct - set (doneSet w)"
    let ?w2 = "setDone item (fold addTodo (interfaces cd) w)"
    have eq: "inherited cls direct - set (doneSet ?w2) = ?X - {item}"
      unfolding st(2) by auto
    have mem: "item \<in> ?X" using st(3,4) by simp
    have "finite ?X" using fin by simp
    then have "card (?X - {item}) = card ?X - 1"
      using mem by (simp add: card_Diff_singleton)
    moreover have "0 < card ?X"
      using mem \<open>finite ?X\<close> card_gt_0_iff by blast
    ultimately have "card (inherited cls direct - set (doneSet ?w2)) \<le> f"
      unfolding eq using Suc.prems(2) by linarith
    from Suc.IH[OF st(1) this] show ?thesis using Cons cd by simp
  qed
qed

lemma closed_contains_inherited:
  assumes "set direct \<subseteq> S" and "\<forall>x\<in>S. \<forall>p. (x, p) \<in> parentRel cls \<longrightarrow> p \<in> S"
  shows "inherited cls direct \<subseteq> S"
proof
  fix y assume "y \<in> inherited cls direct"
  then obtain x where x: "x \<in> set direct" and r: "(x, y) \<in> (parentRel cls)\<^sup>*"
    by (auto simp: inherited_def)
  from r x show "y \<in> S"
    using assms by (induction rule: rtrancl_induct) auto
qed

lemma interfacesTransitiveClosure_sound:
  assumes "interfacesTransitiveClosure fuel this direct = Inr xs"
  shows "set xs = inherited (classes this) direct" "distinct xs" "set xs \<subseteq> dom (classes this)"
proof -
  from assms obtain w' where
    w: "workForEach fuel (\<lambda>intf w. case classes this intf of None \<Rightarrow> Inl TypeError
                               | Some cd \<Rightarrow> Inr (fold addTodo (interfaces cd) w))
          (fold addTodo direct newWork) = Inr w'"
    and xs: "xs = doneSet w'"
    by (auto simp: interfacesTransitiveClosure_def bindE_Inr_iff getDone_def Let_def)
  from workForEach_sound[OF workInv_initial w] have
    inv: "workInv (classes this) direct w'" and e: "todo w' = []"
    by simp_all
  from inv e have "inherited (classes this) direct \<subseteq> set (doneSet w')"
    by (intro closed_contains_inherited) (auto simp: workInv_def)
  with inv show "set xs = inherited (classes this) direct"
    unfolding xs workInv_def e by auto
  from inv show "distinct xs" "set xs \<subseteq> dom (classes this)"
    unfolding xs workInv_def by auto
qed

lemma interfacesTransitiveClosure_total:
  assumes "finite (inherited (classes this) direct)"
      and "inherited (classes this) direct \<subseteq> dom (classes this)"
      and "card (inherited (classes this) direct) \<le> fuel"
  shows "\<exists>xs. interfacesTransitiveClosure fuel this direct = Inr xs"
proof -
  have "card (inherited (classes this) direct - set (doneSet (fold addTodo direct newWork))) \<le> fuel"
    using assms(3) by (simp add: newWork_def)
  from workForEach_total[OF assms(1,2) workInv_initial this]
  show ?thesis
    by (auto simp: interfacesTransitiveClosure_def Let_def)
qed

lemma list_all2_member:
  "list_all2 Q ps ds \<Longrightarrow> p \<in> set ps \<Longrightarrow> \<exists>dp\<in>set ds. Q p dp"
  by (induction ps ds rule: list_all2_induct) auto

lemma parentRel_image: "cls i = Some cd \<Longrightarrow> parentRel cls `` {i} = set (interfaces cd)"
  by (auto simp: parentRel_def)

lemma reach_unfold:
  "R\<^sup>* `` {i} = insert i (\<Union>p\<in>R `` {i}. R\<^sup>* `` {p})"
proof
  show "R\<^sup>* `` {i} \<subseteq> insert i (\<Union>p\<in>R `` {i}. R\<^sup>* `` {p})"
  proof
    fix y assume "y \<in> R\<^sup>* `` {i}"
    then have "(i, y) \<in> R\<^sup>*" by simp
    then show "y \<in> insert i (\<Union>p\<in>R `` {i}. R\<^sup>* `` {p})"
      by (cases rule: converse_rtranclE) auto
  qed
  show "insert i (\<Union>p\<in>R `` {i}. R\<^sup>* `` {p}) \<subseteq> R\<^sup>* `` {i}"
    by (auto intro: converse_rtrancl_into_rtrancl)
qed

lemma hasDepth_reach:
  "hasDepth cls i d \<Longrightarrow>
     finite ((parentRel cls)\<^sup>* `` {i})
     \<and> (\<forall>x\<in>(parentRel cls)\<^sup>* `` {i}. \<exists>dx. hasDepth cls x dx \<and> dx \<le> d)"
proof (induction rule: hasDepth.induct)
  case (1 intf cd depths d)
  let ?R = "parentRel cls"
  have l: "list_all2 (hasDepth cls) (interfaces cd) depths"
    using "1.IH" by (rule list_all2_mono) simp
  have h: "hasDepth cls intf d"
    using hasDepth.intros[OF "1.hyps"(1) l "1.hyps"(2)] .
  have par: "finite (?R\<^sup>* `` {p}) \<and> (\<forall>x\<in>?R\<^sup>* `` {p}. \<exists>dx. hasDepth cls x dx \<and> dx < d)"
    if p: "p \<in> set (interfaces cd)" for p
  proof -
    from list_all2_member[OF "1.IH" p] obtain dp where
      dp: "dp \<in> set depths" and f: "finite (?R\<^sup>* `` {p})"
      and b: "\<forall>x\<in>?R\<^sup>* `` {p}. \<exists>dx. hasDepth cls x dx \<and> dx \<le> dp"
      by blast
    from dp have "depths \<noteq> []" by auto
    with "1.hyps"(2) have "d = Max (set depths) + 1" by simp
    moreover have "dp \<le> Max (set depths)" using dp by simp
    ultimately have "dp < d" by simp
    with b f show ?thesis by (meson le_less_trans)
  qed
  have u: "?R\<^sup>* `` {intf} = insert intf (\<Union>p\<in>set (interfaces cd). ?R\<^sup>* `` {p})"
    using reach_unfold[of ?R intf] parentRel_image[of cls intf cd] "1.hyps"(1) by simp
  have "finite (?R\<^sup>* `` {intf})"
    unfolding u using par by simp
  moreover have "\<exists>dx. hasDepth cls x dx \<and> dx \<le> d" if "x \<in> ?R\<^sup>* `` {intf}" for x
  proof -
    from that u consider "x = intf" | p where "p \<in> set (interfaces cd)" "x \<in> ?R\<^sup>* `` {p}"
      by blast
    then show ?thesis
    proof cases
      case 1
      with h show ?thesis by blast
    next
      case 2
      with par[OF 2(1)] show ?thesis by (meson less_imp_le)
    qed
  qed
  ultimately show ?case by blast
qed

lemma inherited_Cons:
  "inherited cls (i # rest) = (parentRel cls)\<^sup>* `` {i} \<union> inherited cls rest"
  by (auto simp: inherited_def)

lemma inherited_bounded:
  "(\<forall>i\<in>set direct. \<exists>d. hasDepth cls i d) \<Longrightarrow>
     finite (inherited cls direct)
     \<and> (\<exists>D. \<forall>x\<in>inherited cls direct. \<exists>dx. hasDepth cls x dx \<and> dx \<le> D)"
proof (induction direct)
  case Nil
  then show ?case by (simp add: inherited_def)
next
  case (Cons i rest)
  from Cons.prems obtain d where d: "hasDepth cls i d" by auto
  from Cons.IH Cons.prems obtain D where
    f: "finite (inherited cls rest)"
    and D: "\<forall>x\<in>inherited cls rest. \<exists>dx. hasDepth cls x dx \<and> dx \<le> D"
    by auto
  note r = hasDepth_reach[OF d]
  have "finite (inherited cls (i # rest))"
    unfolding inherited_Cons using f r by simp
  moreover have "\<forall>x\<in>inherited cls (i # rest). \<exists>dx. hasDepth cls x dx \<and> dx \<le> max d D"
    unfolding inherited_Cons using r D by (meson UnE le_max_iff_disj)
  ultimately show ?case by blast
qed

lemma inherited_in_table:
  "\<forall>x\<in>inherited cls direct. \<exists>dx. hasDepth cls x dx \<and> dx \<le> D \<Longrightarrow> inherited cls direct \<subseteq> dom cls"
  using hasDepth_in_table by (metis domI subsetI)


section \<open>The order of the walk and the merge of one name\<close>

lemma mapState_depth_frame:
  assumes step: "\<And>s x y s'. interfaceDepth f s x = Inr (y, s') \<Longrightarrow>
      onlyCacheGrows s s' \<and> interfaceDepthCache s' x = Some y"
  shows "mapState (interfaceDepth f) s ps = Inr (ds, s') \<Longrightarrow>
      onlyCacheGrows s s' \<and> map (interfaceDepthCache s') ps = map Some ds"
proof (induction ps arbitrary: s ds s')
  case Nil
  then show ?case by simp
next
  case (Cons x xs)
  from Cons.prems obtain y s1 ys where
    x: "interfaceDepth f s x = Inr (y, s1)" and xs: "mapState (interfaceDepth f) s1 xs = Inr (ys, s')"
    and ds: "ds = y # ys"
    unfolding mapState_Cons_Inr by blast
  from step[OF x] have 1: "onlyCacheGrows s s1" "interfaceDepthCache s1 x = Some y"
    by simp_all
  from Cons.IH[OF xs] have
    2: "onlyCacheGrows s1 s'" "map (interfaceDepthCache s') xs = map Some ys"
    by simp_all
  have "interfaceDepthCache s' x = Some y" using onlyCacheGrows_lookup[OF 2(1) 1(2)] .
  then show ?case
    using 2 ds onlyCacheGrows_trans[OF 1(1) 2(1)] by simp
qed

lemma interfaceDepth_frame:
  "interfaceDepth fuel this i = Inr (d, this') \<Longrightarrow>
     onlyCacheGrows this this' \<and> interfaceDepthCache this' i = Some d"
proof (induction fuel arbitrary: this i d this')
  case 0
  then show ?case by simp
next
  case (Suc f)
  note call = Suc.prems
  show ?case
  proof (cases "interfaceDepthCache this i")
    case (Some d0)
    with call have "d = d0" "this' = this" by simp_all
    with Some show ?thesis by simp
  next
    case None
    with call obtain cd where cd: "classes this i = Some cd"
      by (cases "classes this i") simp_all
    show ?thesis
    proof (cases "interfaces cd = []")
      case True
      with call None cd have r: "d = 0"
        "this' = this\<lparr>interfaceDepthCache := (interfaceDepthCache this)(i \<mapsto> 0)\<rparr>"
        by simp_all
      show ?thesis
        unfolding r using onlyCacheGrows_update[OF None] by simp
    next
      case False
      with call None cd obtain depths this1 where
        ms: "mapState (interfaceDepth f) this (interfaces cd) = Inr (depths, this1)"
        and r: "d = Max (set depths) + 1"
          "this' = this1\<lparr>interfaceDepthCache := (interfaceDepthCache this1)(i \<mapsto> Max (set depths) + 1)\<rparr>"
        by (auto simp: bindE_pair_Inr_iff Let_def)
      from mapState_depth_frame[of f, OF Suc.IH ms] have 1: "onlyCacheGrows this this1"
        by simp
      have g: "onlyCacheGrows this this'"
        using 1 None unfolding r(2) onlyCacheGrows_def map_le_def by auto
      show ?thesis
        using g unfolding r by simp
    qed
  qed
qed

lemma mapState_cached:
  "map (interfaceDepthCache s) ps = map Some ds \<Longrightarrow>
     mapState (interfaceDepth (Suc n)) s ps = Inr (ds, s)"
proof (induction ps arbitrary: ds)
  case Nil
  then show ?case by simp
next
  case (Cons p ps)
  from Cons.prems obtain d ds' where ds: "ds = d # ds'" by (cases ds) auto
  with Cons.prems have p: "interfaceDepthCache s p = Some d"
    and r: "map (interfaceDepthCache s) ps = map Some ds'" by simp_all
  from Cons.IH[OF r] p ds show ?case by simp
qed

lemma mapState_fuel:
  "mapState (interfaceDepth fuel) s (p # ps) = Inr r \<Longrightarrow> \<exists>n. fuel = Suc n"
  by (cases fuel) simp_all

lemma sortByDepthDescending_rerun:
  assumes "sortByDepthDescending fuel this xs = Inr (ys, this')"
  shows "sortByDepthDescending fuel this' xs = Inr (ys, this')" "onlyCacheGrows this this'"
proof -
  show "sortByDepthDescending fuel this' xs = Inr (ys, this')"
  proof (cases "length xs < 2")
    case True
    with assms show ?thesis by (simp add: sortByDepthDescending_def)
  next
    case False
    with assms obtain ds where
      ms: "mapState (interfaceDepth fuel) this xs = Inr (ds, this')"
      and ys: "ys = map fst (sort_key (\<lambda>(intf, d). - int d) (zip xs ds))"
      by (auto simp: sortByDepthDescending_def bindE_pair_Inr_iff)
    from False obtain p ps where "xs = p # ps" by (cases xs) simp_all
    with ms mapState_fuel obtain n where n: "fuel = Suc n" by blast
    from mapState_depth_frame[OF interfaceDepth_frame ms]
    have "map (interfaceDepthCache this') xs = map Some ds" by simp
    from mapState_cached[OF this, of n] n False ys show ?thesis
      by (simp add: sortByDepthDescending_def)
  qed
  show "onlyCacheGrows this this'"
  proof (cases "length xs < 2")
    case True
    with assms show ?thesis by (simp add: sortByDepthDescending_def)
  next
    case False
    with assms obtain ds where
      ms: "mapState (interfaceDepth fuel) this xs = Inr (ds, this')"
      by (auto simp: sortByDepthDescending_def bindE_pair_Inr_iff)
    from mapState_depth_frame[OF interfaceDepth_frame ms] show ?thesis by simp
  qed
qed

lemma short_sorted:
  assumes "length xs < 2"
  shows "sorted_wrt R xs"
proof (cases xs)
  case Nil
  then show ?thesis by simp
next
  case (Cons a l)
  with assms show ?thesis by (cases l) simp_all
qed

lemma sorted_by_depth:
  assumes l: "list_all2 (hasDepth cls) xs ds"
  shows "sorted_wrt (deeperOrEqual cls) (map fst (sort_key (\<lambda>(intf, d). - int d) (zip xs ds)))"
proof -
  let ?k = "\<lambda>(intf :: string, d :: nat). - int d"
  let ?zs = "sort_key ?k (zip xs ds)"
  have m: "\<forall>(i, d)\<in>set ?zs. hasDepth cls i d"
    using l by (auto simp: list_all2_iff)
  have "sorted (map ?k ?zs)" by (rule sorted_sort_key)
  then have s: "sorted_wrt (\<lambda>a b. ?k a \<le> ?k b) ?zs"
    by (simp add: sorted_map)
  have "sorted_wrt (\<lambda>a b. deeperOrEqual cls (fst a) (fst b)) ?zs"
  proof (rule sorted_wrt_mono_rel[OF _ s])
    fix a b assume a: "a \<in> set ?zs" and b: "b \<in> set ?zs" and le: "?k a \<le> ?k b"
    obtain ia da ib db where ab: "a = (ia, da)" "b = (ib, db)" by (cases a, cases b) blast
    from m a b ab have h: "hasDepth cls ia da" "hasDepth cls ib db" by auto
    from le ab have "db \<le> da" by simp
    with h show "deeperOrEqual cls (fst a) (fst b)"
      unfolding deeperOrEqual_def ab using hasDepth_functional by (metis fst_conv)
  qed
  then show ?thesis by (simp add: sorted_wrt_map)
qed

lemma sortByDepthDescending_sound:
  assumes valid: "cacheValid this"
    and call: "sortByDepthDescending fuel this xs = Inr (ys, this')"
  shows "mset ys = mset xs" "sorted_wrt (deeperOrEqual (classes this)) ys" "cacheValid this'"
proof -
  have "mset ys = mset xs \<and> sorted_wrt (deeperOrEqual (classes this)) ys \<and> cacheValid this'"
  proof (cases "length xs < 2")
    case True
    with call have "ys = xs" "this' = this" by (simp_all add: sortByDepthDescending_def)
    with True valid show ?thesis by (simp add: short_sorted)
  next
    case False
    with call obtain ds where
      ms: "mapState (interfaceDepth fuel) this xs = Inr (ds, this')"
      and ys: "ys = map fst (sort_key (\<lambda>(intf, d). - int d) (zip xs ds))"
      by (auto simp: sortByDepthDescending_def bindE_pair_Inr_iff)
    from mapState_depth_sound[OF interfaceDepth_sound valid ms] have
      l: "list_all2 (hasDepth (classes this)) xs ds" and v: "cacheValid this'"
      by simp_all
    from l have len: "length xs = length ds" by (rule list_all2_lengthD)
    have "mset ys = image_mset fst (mset (zip xs ds))"
      unfolding ys by simp
    also have "\<dots> = mset (map fst (zip xs ds))" by simp
    also have "\<dots> = mset xs" using len by simp
    finally have "mset ys = mset xs" .
    with sorted_by_depth[OF l] v ys show ?thesis by simp
  qed
  then show "mset ys = mset xs" "sorted_wrt (deeperOrEqual (classes this)) ys" "cacheValid this'"
    by simp_all
qed

lemma sortByDepthDescending_total:
  assumes d: "\<forall>x\<in>set xs. \<exists>dx. hasDepth (classes this) x dx \<and> dx < fuel"
    and valid: "cacheValid this"
  shows "\<exists>ys this'. sortByDepthDescending fuel this xs = Inr (ys, this')"
proof -
  have "\<exists>ds. list_all2 (hasDepth (classes this)) xs ds \<and> (\<forall>dp\<in>set ds. dp < fuel)"
    using d
  proof (induction xs)
    case Nil
    then show ?case by simp
  next
    case (Cons x xs)
    then obtain dx ds where "hasDepth (classes this) x dx" "dx < fuel"
      "list_all2 (hasDepth (classes this)) xs ds" "\<forall>dp\<in>set ds. dp < fuel"
      by auto
    then have "list_all2 (hasDepth (classes this)) (x # xs) (dx # ds) \<and> (\<forall>dp\<in>set (dx # ds). dp < fuel)"
      by simp
    then show ?case by blast
  qed
  then obtain ds where l: "list_all2 (hasDepth (classes this)) xs ds" and s: "\<forall>dp\<in>set ds. dp < fuel"
    by blast
  from mapState_depth_total[OF l interfaceDepth_total s refl valid]
  obtain s' where "mapState (interfaceDepth fuel) this xs = Inr (ds, s')" ..
  then show ?thesis by (simp add: sortByDepthDescending_def)
qed

lemma interfacesTransitiveClosure_classes:
  "classes a = classes b \<Longrightarrow>
     interfacesTransitiveClosure fuel a direct = interfacesTransitiveClosure fuel b direct"
  by (simp add: interfacesTransitiveClosure_def)

lemma assignInherited_apply:
  "assignInherited cls n i mv sig =
     (case inheritedVariant cls n sig i of None \<Rightarrow> mv sig | Some v \<Rightarrow> Some v)"
  by (simp add: assignInherited_def inheritedVariant_def map_add_def split: option.splits)

lemma lastInherited_snoc:
  "lastInherited cls n sig (xs @ [x]) =
     (case inheritedVariant cls n sig x of None \<Rightarrow> lastInherited cls n sig xs | Some v \<Rightarrow> Some v)"
proof (cases "inheritedVariant cls n sig x")
  case None
  then show ?thesis by (simp add: lastInherited_def List.map_filter_def)
next
  case (Some v)
  let ?vs = "List.map_filter (inheritedVariant cls n sig) xs"
  have e: "List.map_filter (inheritedVariant cls n sig) (xs @ [x]) = ?vs @ [v]"
    using Some by (simp add: List.map_filter_def)
  obtain a l where al: "?vs @ [v] = a # l" by (cases "?vs @ [v]") simp_all
  have "last (a # l) = v" using al by (metis last_snoc)
  then show ?thesis
    unfolding lastInherited_def e al using Some by simp
qed

lemma lastInherited_Nil [simp]: "lastInherited cls n sig [] = None"
  by (simp add: lastInherited_def List.map_filter_def)

lemma fold_assignInherited:
  "fold (assignInherited cls n) intfs own sig =
     (case lastInherited cls n sig intfs of None \<Rightarrow> own sig | Some v \<Rightarrow> Some v)"
proof (induction intfs rule: rev_induct)
  case Nil
  then show ?case by simp
next
  case (snoc x xs)
  then show ?case
    by (simp add: assignInherited_apply lastInherited_snoc split: option.splits)
qed

lemma fold_assignInherited_idem:
  "fold (assignInherited cls n) intfs (fold (assignInherited cls n) intfs own) =
     fold (assignInherited cls n) intfs own"
  by (rule ext) (simp add: fold_assignInherited split: option.splits)


section \<open>The merge of the inherited variants\<close>

lemma mergeOverloadedVariants_Inr_iff:
  "(mergeOverloadedVariants fuel this variants direct = Inr (merged, this')) =
     (\<exists>closure intfs.
        interfacesTransitiveClosure fuel this direct = Inr closure
        \<and> sortByDepthDescending fuel this closure = Inr (intfs, this')
        \<and> merged = (\<lambda>methodName.
              map_option (fold (assignInherited (classes this') methodName) intfs)
                (variants methodName)))"
  unfolding mergeOverloadedVariants_def bindE_Inr_iff bindE_pair_Inr_iff by auto

lemma merge_sound:
  assumes valid: "cacheValid this"
    and call: "mergeOverloadedVariants fuel this variants direct = Inr (merged, this')"
  shows "\<exists>intfs. set intfs = inherited (classes this) direct \<and> distinct intfs
      \<and> sorted_wrt (deeperOrEqual (classes this)) intfs
      \<and> (\<forall>n. merged n =
            map_option
              (\<lambda>own sig. case lastInherited (classes this) n sig intfs of
                            None \<Rightarrow> own sig | Some v \<Rightarrow> Some v)
              (variants n))
      \<and> onlyCacheGrows this this' \<and> cacheValid this'"
proof -
  from call obtain closure intfs where
    c: "interfacesTransitiveClosure fuel this direct = Inr closure"
    and s: "sortByDepthDescending fuel this closure = Inr (intfs, this')"
    and m: "merged = (\<lambda>methodName.
              map_option (fold (assignInherited (classes this') methodName) intfs)
                (variants methodName))"
    unfolding mergeOverloadedVariants_Inr_iff by blast
  note cl = interfacesTransitiveClosure_sound[OF c]
  note so = sortByDepthDescending_sound[OF valid s]
  note g = sortByDepthDescending_rerun(2)[OF s]
  have cs: "classes this' = classes this" using g by (rule onlyCacheGrows_classes)
  have 1: "set intfs = inherited (classes this) direct"
    using mset_eq_setD[OF so(1)] cl(1) by simp
  have 2: "distinct intfs"
    using mset_eq_imp_distinct_iff[OF so(1)] cl(2) by simp
  have f: "fold (assignInherited (classes this) n) intfs =
      (\<lambda>own sig. case lastInherited (classes this) n sig intfs of
                            None \<Rightarrow> own sig | Some v \<Rightarrow> Some v)" for n
    by (intro ext) (rule fold_assignInherited)
  have 3: "\<forall>n. merged n =
            map_option
              (\<lambda>own sig. case lastInherited (classes this) n sig intfs of
                            None \<Rightarrow> own sig | Some v \<Rightarrow> Some v)
              (variants n)"
    unfolding m cs f by simp
  from 1 2 so(2) 3 g so(3) show ?thesis by blast
qed

text \<open>A recursion bound that suffices exists as soon as the direct interfaces have depths.\<close>

lemma merge_total:
  assumes valid: "cacheValid this"
    and d: "\<forall>i\<in>set direct. \<exists>d. hasDepth (classes this) i d"
  shows "\<exists>fuel0. \<forall>fuel\<ge>fuel0. \<exists>merged this'.
           mergeOverloadedVariants fuel this variants direct = Inr (merged, this')"
proof -
  let ?cls = "classes this"
  from inherited_bounded[OF d] obtain D where
    fin: "finite (inherited ?cls direct)"
    and D: "\<forall>x\<in>inherited ?cls direct. \<exists>dx. hasDepth ?cls x dx \<and> dx \<le> D"
    by blast
  note sub = inherited_in_table[OF D]
  let ?f0 = "max (card (inherited ?cls direct)) (Suc D)"
  have "\<exists>merged this'. mergeOverloadedVariants fuel this variants direct = Inr (merged, this')"
    if fuel: "?f0 \<le> fuel" for fuel
  proof -
    from fuel have c: "card (inherited ?cls direct) \<le> fuel" and dl: "D < fuel" by simp_all
    from interfacesTransitiveClosure_total[OF fin sub c] obtain closure where
      cl: "interfacesTransitiveClosure fuel this direct = Inr closure" by blast
    from interfacesTransitiveClosure_sound[OF cl] have sc: "set closure = inherited ?cls direct"
      by simp
    have small: "\<forall>x\<in>set closure. \<exists>dx. hasDepth ?cls x dx \<and> dx < fuel"
    proof
      fix x assume "x \<in> set closure"
      with sc D obtain dx where "hasDepth ?cls x dx" "dx \<le> D" by blast
      with dl show "\<exists>dx. hasDepth ?cls x dx \<and> dx < fuel" by (intro exI[of _ dx]) simp
    qed
    from sortByDepthDescending_total[OF small valid] obtain intfs this' where
      "sortByDepthDescending fuel this closure = Inr (intfs, this')" by blast
    with cl show ?thesis unfolding mergeOverloadedVariants_Inr_iff by blast
  qed
  then show ?thesis by blast
qed

text \<open>A recursion bound above the depths and the number of the inherited interfaces suffices.\<close>

lemma merge_returns:
  assumes valid: "cacheValid this"
    and depths: "\<forall>x\<in>inherited (classes this) direct.
                   \<exists>dx. hasDepth (classes this) x dx \<and> dx < fuel"
    and size: "card (inherited (classes this) direct) \<le> fuel"
  shows "\<exists>merged this'. mergeOverloadedVariants fuel this variants direct = Inr (merged, this')"
proof -
  let ?cls = "classes this"
  have dir: "\<forall>i\<in>set direct. \<exists>d. hasDepth ?cls i d"
  proof
    fix i assume "i \<in> set direct"
    then have "i \<in> inherited ?cls direct" using inherited_direct by (rule subsetD[rotated])
    with depths show "\<exists>d. hasDepth ?cls i d" by blast
  qed
  from inherited_bounded[OF dir] have fin: "finite (inherited ?cls direct)"
    by simp
  have sub: "inherited ?cls direct \<subseteq> dom ?cls"
  proof
    fix x assume "x \<in> inherited ?cls direct"
    with depths obtain dx where "hasDepth ?cls x dx" by blast
    from hasDepth_in_table[OF this] show "x \<in> dom ?cls" by blast
  qed
  from interfacesTransitiveClosure_total[OF fin sub size] obtain closure where
    cl: "interfacesTransitiveClosure fuel this direct = Inr closure" by blast
  from interfacesTransitiveClosure_sound[OF cl]
  have sc: "set closure = inherited ?cls direct" by simp
  have small: "\<forall>x\<in>set closure. \<exists>dx. hasDepth ?cls x dx \<and> dx < fuel"
    unfolding sc by (rule depths)
  from sortByDepthDescending_total[OF small valid] obtain intfs this' where
    "sortByDepthDescending fuel this closure = Inr (intfs, this')" by blast
  with cl show ?thesis
    unfolding mergeOverloadedVariants_Inr_iff by blast
qed

text \<open>The second merge, in the state that the first one has left.\<close>

lemma merge_rerun:
  assumes call: "mergeOverloadedVariants fuel this variants direct = Inr (merged, this')"
  shows "mergeOverloadedVariants fuel this' merged direct = Inr (merged, this')"
proof -
  from call obtain closure intfs where
    c: "interfacesTransitiveClosure fuel this direct = Inr closure"
    and s: "sortByDepthDescending fuel this closure = Inr (intfs, this')"
    and m: "merged = (\<lambda>methodName.
              map_option (fold (assignInherited (classes this') methodName) intfs)
                (variants methodName))"
    unfolding mergeOverloadedVariants_Inr_iff by blast
  note r = sortByDepthDescending_rerun[OF s]
  have cs: "classes this' = classes this" using r(2) by (rule onlyCacheGrows_classes)
  have c': "interfacesTransitiveClosure fuel this' direct = Inr closure"
    using interfacesTransitiveClosure_classes[OF cs, of fuel direct] c by simp
  have "merged = (\<lambda>methodName.
              map_option (fold (assignInherited (classes this') methodName) intfs)
                (merged methodName))"
    unfolding m by (rule ext) (simp add: option.map_comp comp_def fold_assignInherited_idem)
  with c' r(1) show ?thesis unfolding mergeOverloadedVariants_Inr_iff by blast
qed

text \<open>The merge at the example: \<^verbatim>\<open>java.util.ArrayList\<close>, which implements \<^verbatim>\<open>java.util.List\<close>.\<close>

lemma example_closure:
  "interfacesTransitiveClosure 3 exampleMap [''java.util.List''] =
     Inr [''java.util.List'', ''java.util.Collection'', ''java.lang.Object'']"
proof -
  have c: "classes exampleMap = exampleClasses" by (simp add: exampleMap_def)
  show ?thesis
    unfolding interfacesTransitiveClosure_def c
    by (simp add: eval_nat_numeral exampleClasses_lookup newWork_def addTodo_def setDone_def
          getDone_def)
qed

lemma example_sort:
  "\<exists>this'. sortByDepthDescending 3 exampleMap
              [''java.util.List'', ''java.util.Collection'', ''java.lang.Object''] =
            Inr ([''java.util.List'', ''java.util.Collection'', ''java.lang.Object''], this')"
proof -
  have c: "classes exampleMap = exampleClasses"
    and e: "interfaceDepthCache exampleMap = Map.empty" by (simp_all add: exampleMap_def)
  show ?thesis
    unfolding sortByDepthDescending_def
    by (simp add: eval_nat_numeral c e exampleClasses_lookup)
qed

lemma example_merge:
  "\<exists>this'. mergeOverloadedVariants 3 exampleMap ownVariants [''java.util.List''] =
      Inr (\<lambda>methodName.
             map_option
               (fold (assignInherited exampleClasses methodName)
                  [''java.util.List'', ''java.util.Collection'', ''java.lang.Object''])
               (ownVariants methodName),
           this')"
proof -
  from example_sort obtain this' where
    s: "sortByDepthDescending 3 exampleMap
              [''java.util.List'', ''java.util.Collection'', ''java.lang.Object''] =
            Inr ([''java.util.List'', ''java.util.Collection'', ''java.lang.Object''], this')"
    by blast
  have "classes this' = classes exampleMap"
    using sortByDepthDescending_rerun(2)[OF s] by (rule onlyCacheGrows_classes)
  then have c: "classes this' = exampleClasses" by (simp add: exampleMap_def)
  show ?thesis
    unfolding mergeOverloadedVariants_Inr_iff
    using example_closure s c by auto
qed

lemma example_merged_size:
  "fold (assignInherited exampleClasses ''size'')
     [''java.util.List'', ''java.util.Collection'', ''java.lang.Object'']
     [''size()I'' \<mapsto> size_ArrayList] ''size()I'' = Some size_Collection"
  by (simp add: assignInherited_def exampleClasses_lookup)

lemma example_inherited:
  "inherited exampleClasses [''java.util.List''] =
      {''java.util.List'', ''java.util.Collection'', ''java.lang.Object''}"
proof -
  have c: "classes exampleMap = exampleClasses" by (simp add: exampleMap_def)
  show ?thesis
    using interfacesTransitiveClosure_sound(1)[OF example_closure] c by simp
qed

lemma example_depths_below:
  "\<forall>x\<in>inherited (classes exampleMap) [''java.util.List''].
     \<exists>dx. hasDepth (classes exampleMap) x dx \<and> dx < 3"
proof -
  have c: "classes exampleMap = exampleClasses" by (simp add: exampleMap_def)
  have "\<exists>dx. hasDepth exampleClasses ''java.util.List'' dx \<and> dx < 3"
    using exampleClasses_depths(3) by (intro exI[of _ 2]) simp
  moreover have "\<exists>dx. hasDepth exampleClasses ''java.util.Collection'' dx \<and> dx < 3"
    using exampleClasses_depths(2) by (intro exI[of _ 1]) simp
  moreover have "\<exists>dx. hasDepth exampleClasses ''java.lang.Object'' dx \<and> dx < 3"
    using exampleClasses_depths(1) by (intro exI[of _ 0]) simp
  ultimately show ?thesis unfolding c example_inherited by simp
qed

lemma example_card:
  "card (inherited (classes exampleMap) [''java.util.List'']) \<le> 3"
proof -
  have c: "classes exampleMap = exampleClasses" by (simp add: exampleMap_def)
  have "card {''java.util.List'', ''java.util.Collection'', ''java.lang.Object''} \<le> (3::nat)"
    by simp
  then show ?thesis unfolding c example_inherited .
qed

section \<open>The variants of one class under the comparator\<close>

text \<open>
  The dictionaries that hold the variants of one class are keyed by signature: the one
  that \<^verbatim>\<open>groupMethods\<close> builds, and the one that the merge leaves when the dictionaries of
  the class table are.
\<close>

lemma keyedBySignature_empty [simp]: "keyedBySignature Map.empty"
  by (simp add: keyedBySignature_def)

lemma keyedBySignature_update:
  "keyedBySignature d \<Longrightarrow> keyedBySignature (d(signature m \<mapsto> m))"
  by (simp add: keyedBySignature_def)

lemma keyedBySignature_add:
  "keyedBySignature d \<Longrightarrow> keyedBySignature e \<Longrightarrow> keyedBySignature (d ++ e)"
  unfolding keyedBySignature_def by (metis map_add_Some_iff)

lemma keyedBySignature_same:
  "keyedBySignature d \<Longrightarrow> d s = Some a \<Longrightarrow> d s' = Some b \<Longrightarrow> signature a = signature b \<Longrightarrow> a = b"
  unfolding keyedBySignature_def by (metis option.inject)

lemma groupMethods_step_keyed:
  fixes f :: "MethodDefinition \<Rightarrow> MethodsByNameBySignature \<Rightarrow> MethodsByNameBySignature"
  assumes f: "f = (\<lambda>method result.
             if name method = ''__proto__'' then result
             else (let bySig = (case result (name method) of None \<Rightarrow> Map.empty | Some d \<Rightarrow> d)
                   in result(name method \<mapsto>
                        (if signature method = ''__proto__'' then bySig
                         else bySig(signature method \<mapsto> method)))))"
  shows "(\<forall>n d. acc n = Some d \<longrightarrow> keyedBySignature d) \<Longrightarrow>
     (\<forall>n d. fold f xs acc n = Some d \<longrightarrow> keyedBySignature d)"
proof (induction xs arbitrary: acc)
  case Nil
  then show ?case by simp
next
  case (Cons x xs)
  let ?bySig = "case acc (name x) of None \<Rightarrow> Map.empty | Some d \<Rightarrow> d"
  have k: "keyedBySignature ?bySig"
    using Cons.prems by (cases "acc (name x)") simp_all
  have "\<forall>n d. f x acc n = Some d \<longrightarrow> keyedBySignature d"
    unfolding f Let_def using Cons.prems k keyedBySignature_update[OF k, of x] by auto
  from Cons.IH[OF this] show ?case by simp
qed

lemma groupMethods_keyed:
  "groupMethods methods n = Some bySig \<Longrightarrow> keyedBySignature bySig"
  unfolding groupMethods_def using groupMethods_step_keyed[OF refl, of Map.empty methods] by simp

lemma assignInherited_keyed:
  assumes t: "\<forall>cn cd m d. cls cn = Some cd \<and> variantsDict cd m = Some d \<longrightarrow> keyedBySignature d"
    and o: "keyedBySignature own"
  shows "keyedBySignature (assignInherited cls n i own)"
proof (cases "cls i")
  case None
  with o show ?thesis by (simp add: assignInherited_def)
next
  case (Some cd)
  show ?thesis
  proof (cases "variantsDict cd n")
    case None
    with Some o show ?thesis by (simp add: assignInherited_def)
  next
    case (Some d)
    with t \<open>cls i = Some cd\<close> have "keyedBySignature d" by blast
    from keyedBySignature_add[OF o this] Some \<open>cls i = Some cd\<close> show ?thesis
      by (simp add: assignInherited_def)
  qed
qed

lemma fold_assignInherited_keyed:
  assumes t: "\<forall>cn cd m d. cls cn = Some cd \<and> variantsDict cd m = Some d \<longrightarrow> keyedBySignature d"
  shows "keyedBySignature own \<Longrightarrow> keyedBySignature (fold (assignInherited cls n) intfs own)"
proof (induction intfs arbitrary: own)
  case Nil
  then show ?case by simp
next
  case (Cons i intfs)
  from Cons.IH[OF assignInherited_keyed[OF t Cons.prems]] show ?case by simp
qed

lemma merge_keyed:
  assumes t: "\<forall>cn cd m d. classes this cn = Some cd \<and> variantsDict cd m = Some d \<longrightarrow> keyedBySignature d"
    and v: "\<forall>n d. variants n = Some d \<longrightarrow> keyedBySignature d"
    and call: "mergeOverloadedVariants fuel this variants direct = Inr (merged, this')"
    and m: "merged n = Some bySig"
  shows "keyedBySignature bySig"
proof -
  from call obtain closure intfs where
    s: "sortByDepthDescending fuel this closure = Inr (intfs, this')"
    and mg: "merged = (\<lambda>methodName.
              map_option (fold (assignInherited (classes this') methodName) intfs)
                (variants methodName))"
    unfolding mergeOverloadedVariants_Inr_iff by blast
  have cs: "classes this' = classes this"
    using sortByDepthDescending_rerun(2)[OF s] by (rule onlyCacheGrows_classes)
  from m obtain own where own: "variants n = Some own"
    and b: "bySig = fold (assignInherited (classes this) n) intfs own"
    unfolding mg cs by auto
  from v own have "keyedBySignature own" by blast
  from fold_assignInherited_keyed[OF t this] b show ?thesis by simp
qed


text \<open>The example: the methods of \<^verbatim>\<open>java.util.ArrayList\<close>, grouped and merged.\<close>

lemma groupMethods_example: "groupMethods [size_ArrayList, add_ArrayList] = ownVariants"
  by (simp add: groupMethods_def ownVariants_def size_ArrayList_def add_ArrayList_def Let_def)

lemma exampleClasses_keyed:
  "\<forall>cn cd m e. classes exampleMap cn = Some cd \<and> variantsDict cd m = Some e \<longrightarrow> keyedBySignature e"
proof (intro allI impI)
  fix cn cd m e
  assume h: "classes exampleMap cn = Some cd \<and> variantsDict cd m = Some e"
  have k: "keyedBySignature [''size()I'' \<mapsto> size_Collection]"
      "keyedBySignature [''add(Ljava/lang/Object;)Z'' \<mapsto> add_Collection]"
      "keyedBySignature [''add(Ljava/lang/Object;)Z'' \<mapsto> add_Collection,
                        ''add(ILjava/lang/Object;)V'' \<mapsto> add_List_index]"
    by (simp_all add: keyedBySignature_def size_Collection_def add_Collection_def add_List_index_def)
  from h have "exampleClasses cn = Some cd" by (simp add: exampleMap_def)
  then consider "cd = \<lparr>fullName = ''java.lang.Object'', interfaces = [], variantsDict = Map.empty\<rparr>"
    | "cd = \<lparr>fullName = ''java.util.Collection'', interfaces = [''java.lang.Object''],
         variantsDict =
           [''size'' \<mapsto> [''size()I'' \<mapsto> size_Collection],
            ''add'' \<mapsto> [''add(Ljava/lang/Object;)Z'' \<mapsto> add_Collection]]\<rparr>"
    | "cd = \<lparr>fullName = ''java.util.List'', interfaces = [''java.util.Collection''],
         variantsDict =
           [''size'' \<mapsto> [''size()I'' \<mapsto> size_Collection],
            ''add'' \<mapsto> [''add(Ljava/lang/Object;)Z'' \<mapsto> add_Collection,
                        ''add(ILjava/lang/Object;)V'' \<mapsto> add_List_index]]\<rparr>"
    unfolding exampleClasses_def by (auto split: if_splits)
  then show "keyedBySignature e"
  proof cases
    case 1
    with h show ?thesis by simp
  next
    case 2
    with h k show ?thesis by (auto split: if_splits)
  next
    case 3
    with h k show ?thesis by (auto split: if_splits)
  qed
qed

lemma example_merged_add:
  "fold (assignInherited exampleClasses ''add'')
     [''java.util.List'', ''java.util.Collection'', ''java.lang.Object'']
     [''add(Ljava/lang/Object;)Z'' \<mapsto> add_ArrayList] ''add(Ljava/lang/Object;)Z'' = Some add_Collection"
  by (simp add: assignInherited_def exampleClasses_lookup)


text \<open>
  Claim C1, as the code has it. Let the cache be valid, let every inherited interface
  have a depth below the recursion bound, and let the bound be at least the number of
  inherited interfaces. Then the merge returns. It walks a list that holds every
  inherited interface once, in descending order of depth. A method name that the class
  does not have stays absent. For a name that the class has, a signature that no
  inherited interface declares keeps the variant of the class, and a signature that an
  inherited interface declares gets the variant of the last interface of the walk that
  declares it, whether the class had a variant for that signature or not: the
  declaration of the shallowest declaring interface replaces the deeper ones. Only the
  depth cache of the mapper changes.
\<close>

theorem mergeOverloadedVariants_merge:
  assumes valid: "cacheValid this"
    and depths: "\<forall>x\<in>inherited (classes this) directInterfaces.
                   \<exists>dx. hasDepth (classes this) x dx \<and> dx < fuel"
    and size: "card (inherited (classes this) directInterfaces) \<le> fuel"
  shows "\<exists>merged this' intfs.
      mergeOverloadedVariants fuel this variants directInterfaces = Inr (merged, this')
      \<and> set intfs = inherited (classes this) directInterfaces \<and> distinct intfs
      \<and> sorted_wrt (deeperOrEqual (classes this)) intfs
      \<and> (\<forall>methodName. merged methodName =
            map_option
              (\<lambda>own sig. case lastInherited (classes this) methodName sig intfs of
                            None \<Rightarrow> own sig | Some v \<Rightarrow> Some v)
              (variants methodName))
      \<and> onlyCacheGrows this this' \<and> cacheValid this'"
proof -
  from merge_returns[OF valid depths size] obtain merged this' where
    call: "mergeOverloadedVariants fuel this variants directInterfaces = Inr (merged, this')"
    by blast
  from merge_sound[OF valid call] call show ?thesis by blast
qed

text \<open>
  The theorem at the example: the merge of the variants of \<^verbatim>\<open>java.util.ArrayList\<close>
  walks \<^verbatim>\<open>java.util.List\<close>, \<^verbatim>\<open>java.util.Collection\<close> and \<^verbatim>\<open>java.lang.Object\<close>.
\<close>

theorem mergeOverloadedVariants_merge_witness:
  "\<exists>merged this' intfs.
      mergeOverloadedVariants 3 exampleMap ownVariants [''java.util.List''] = Inr (merged, this')
      \<and> set intfs = {''java.util.List'', ''java.util.Collection'', ''java.lang.Object''}
      \<and> distinct intfs
      \<and> sorted_wrt (deeperOrEqual exampleClasses) intfs
      \<and> (\<forall>methodName. merged methodName =
            map_option
              (\<lambda>own sig. case lastInherited exampleClasses methodName sig intfs of
                            None \<Rightarrow> own sig | Some v \<Rightarrow> Some v)
              (ownVariants methodName))
      \<and> onlyCacheGrows exampleMap this' \<and> cacheValid this'"
proof -
  have c: "classes exampleMap = exampleClasses" by (simp add: exampleMap_def)
  from mergeOverloadedVariants_merge[OF cacheValid_exampleMap example_depths_below example_card,
         of ownVariants]
  show ?thesis unfolding c example_inherited .
qed

text \<open>
  The variant that \<^verbatim>\<open>java.util.ArrayList\<close> has for \<^verbatim>\<open>size()I\<close> before the merge is its
  own; after the merge it is the one that \<^verbatim>\<open>java.util.Collection\<close> declares.
\<close>

theorem own_variant_overwritten_counterexample:
  "\<exists>own merged this' m.
      ownVariants ''size'' = Some own \<and> own ''size()I'' = Some size_ArrayList
      \<and> mergeOverloadedVariants 3 exampleMap ownVariants [''java.util.List''] = Inr (merged, this')
      \<and> merged ''size'' = Some m \<and> m ''size()I'' = Some size_Collection
      \<and> size_Collection \<noteq> size_ArrayList"
proof -
  from example_merge obtain this' where
    m: "mergeOverloadedVariants 3 exampleMap ownVariants [''java.util.List''] =
      Inr (\<lambda>methodName.
             map_option
               (fold (assignInherited exampleClasses methodName)
                  [''java.util.List'', ''java.util.Collection'', ''java.lang.Object''])
               (ownVariants methodName),
           this')"
    by blast
  have o: "ownVariants ''size'' = Some [''size()I'' \<mapsto> size_ArrayList]"
    by (simp add: ownVariants_def)
  have ne: "size_Collection \<noteq> size_ArrayList"
    by (simp add: size_Collection_def size_ArrayList_def)
  have a: "[''size()I'' \<mapsto> size_ArrayList] ''size()I'' = Some size_ArrayList"
    by simp
  have b: "map_option
             (fold (assignInherited exampleClasses ''size'')
                [''java.util.List'', ''java.util.Collection'', ''java.lang.Object''])
             (ownVariants ''size'') =
           Some (fold (assignInherited exampleClasses ''size'')
                   [''java.util.List'', ''java.util.Collection'', ''java.lang.Object'']
                   [''size()I'' \<mapsto> size_ArrayList])"
    by (simp only: o option.map)
  show ?thesis
    by (intro exI conjI) (rule o a m b example_merged_size ne)+
qed

text \<open>
  Claim C8. When a merge returns, the merge of its result over the same direct
  interfaces, in the state that the first merge has left, returns the same variants
  dictionary and leaves the state as it is. And the first merge does return, for every
  variants dictionary and every list of direct interfaces, when the cache is valid,
  every inherited interface has a depth below the recursion bound and the bound is at
  least the number of inherited interfaces; so both merges return, with the same
  dictionary.
\<close>

theorem mergeOverloadedVariants_idempotent:
  "(mergeOverloadedVariants fuel this variants directInterfaces = Inr (merged, this') \<longrightarrow>
      mergeOverloadedVariants fuel this' merged directInterfaces = Inr (merged, this'))
   \<and> (cacheValid this
        \<and> (\<forall>x\<in>inherited (classes this) directInterfaces.
               \<exists>dx. hasDepth (classes this) x dx \<and> dx < fuel)
        \<and> card (inherited (classes this) directInterfaces) \<le> fuel \<longrightarrow>
      (\<exists>merged1 this1.
          mergeOverloadedVariants fuel this variants directInterfaces = Inr (merged1, this1)
          \<and> mergeOverloadedVariants fuel this1 merged1 directInterfaces = Inr (merged1, this1)))"
proof (intro conjI impI)
  assume "mergeOverloadedVariants fuel this variants directInterfaces = Inr (merged, this')"
  then show "mergeOverloadedVariants fuel this' merged directInterfaces = Inr (merged, this')"
    by (rule merge_rerun)
next
  assume a: "cacheValid this
        \<and> (\<forall>x\<in>inherited (classes this) directInterfaces.
               \<exists>dx. hasDepth (classes this) x dx \<and> dx < fuel)
        \<and> card (inherited (classes this) directInterfaces) \<le> fuel"
  then have valid: "cacheValid this"
    and depths: "\<forall>x\<in>inherited (classes this) directInterfaces.
               \<exists>dx. hasDepth (classes this) x dx \<and> dx < fuel"
    and size: "card (inherited (classes this) directInterfaces) \<le> fuel"
    by simp_all
  from merge_returns[OF valid depths size] obtain merged1 this1 where
    first: "mergeOverloadedVariants fuel this variants directInterfaces = Inr (merged1, this1)"
    by blast
  from first merge_rerun[OF first]
  show "\<exists>merged1 this1.
          mergeOverloadedVariants fuel this variants directInterfaces = Inr (merged1, this1)
          \<and> mergeOverloadedVariants fuel this1 merged1 directInterfaces = Inr (merged1, this1)"
    by blast
qed

text \<open>
  The theorem at the example: both merges of the variants of \<^verbatim>\<open>java.util.ArrayList\<close>
  return, and a second merge of the dictionary that the first one returns gives it
  again.
\<close>

theorem mergeOverloadedVariants_idempotent_witness:
  "(\<exists>merged1 this1.
      mergeOverloadedVariants 3 exampleMap ownVariants [''java.util.List''] = Inr (merged1, this1)
      \<and> mergeOverloadedVariants 3 this1 merged1 [''java.util.List''] = Inr (merged1, this1))
   \<and> (\<exists>merged this'.
      mergeOverloadedVariants 3 exampleMap ownVariants [''java.util.List''] = Inr (merged, this')
      \<and> mergeOverloadedVariants 3 this' merged [''java.util.List''] = Inr (merged, this')
      \<and> (\<exists>m. merged ''size'' = Some m \<and> m ''size()I'' = Some size_Collection))"
proof -
  have h: "cacheValid exampleMap
        \<and> (\<forall>x\<in>inherited (classes exampleMap) [''java.util.List''].
               \<exists>dx. hasDepth (classes exampleMap) x dx \<and> dx < 3)
        \<and> card (inherited (classes exampleMap) [''java.util.List'']) \<le> 3"
    using cacheValid_exampleMap example_depths_below example_card by blast
  have 1: "\<exists>merged1 this1.
      mergeOverloadedVariants 3 exampleMap ownVariants [''java.util.List''] = Inr (merged1, this1)
      \<and> mergeOverloadedVariants 3 this1 merged1 [''java.util.List''] = Inr (merged1, this1)"
    using mergeOverloadedVariants_idempotent[of 3 exampleMap ownVariants "[''java.util.List'']",
            THEN conjunct2, THEN mp, OF h] .
  from example_merge obtain this' where
    m: "mergeOverloadedVariants 3 exampleMap ownVariants [''java.util.List''] =
      Inr (\<lambda>methodName.
             map_option
               (fold (assignInherited exampleClasses methodName)
                  [''java.util.List'', ''java.util.Collection'', ''java.lang.Object''])
               (ownVariants methodName),
           this')"
    by blast
  have s: "\<exists>m. map_option
               (fold (assignInherited exampleClasses ''size'')
                  [''java.util.List'', ''java.util.Collection'', ''java.lang.Object''])
               (ownVariants ''size'') = Some m \<and> m ''size()I'' = Some size_Collection"
    using example_merged_size by (simp add: ownVariants_def)
  from m mergeOverloadedVariants_idempotent[THEN conjunct1, THEN mp, OF m] s
  have 2: "\<exists>merged this'.
      mergeOverloadedVariants 3 exampleMap ownVariants [''java.util.List''] = Inr (merged, this')
      \<and> mergeOverloadedVariants 3 this' merged [''java.util.List''] = Inr (merged, this')
      \<and> (\<exists>m. merged ''size'' = Some m \<and> m ''size()I'' = Some size_Collection)"
    by blast
  from 1 2 show ?thesis by blast
qed

text \<open>
  Claim C5. For a collation \<open>lc\<close>, \<^verbatim>\<open>compareVariants\<close> is a strict weak ordering: a variant
  is equivalent to itself, \<open>a\<close> before \<open>b\<close> excludes \<open>b\<close> before \<open>a\<close>, before is transitive,
  and being incomparable is the relation of comparing as equivalent, which is symmetric
  and transitive. Two variants compare as equivalent exactly when all five keys tie: the
  same number of parameters, the same number of entries \<^verbatim>\<open>any\<close> among the translated
  parameter types, signatures of the same length that collate as equal, and generic
  prototypes that collate as equal. Within one class it is consistent with equality of
  signature: two variants with the same signature that stand in the dictionary that
  \<^verbatim>\<open>groupMethods\<close> builds for a method name, or in the dictionary that the merge of
  the inherited variants makes of it over a class table whose dictionaries are keyed by
  signature, or in a list of constructors with distinct signatures, are the same
  variant and compare as equivalent.
\<close>

theorem compareVariants_strict_weak_order:
  assumes c: "collation lc"
  shows "compareVariants lc a a = 0
    \<and> (compareVariants lc a b < 0 \<longrightarrow> compareVariants lc b a > 0)
    \<and> (compareVariants lc a b < 0 \<and> compareVariants lc b d < 0 \<longrightarrow> compareVariants lc a d < 0)
    \<and> ((\<not> compareVariants lc a b < 0 \<and> \<not> compareVariants lc b a < 0) = (compareVariants lc a b = 0))
    \<and> ((compareVariants lc b a = 0) = (compareVariants lc a b = 0))
    \<and> (compareVariants lc a b = 0 \<and> compareVariants lc b d = 0 \<longrightarrow> compareVariants lc a d = 0)
    \<and> ((compareVariants lc a b = 0) =
         (length (paramTypes a) = length (paramTypes b)
          \<and> length (filter (\<lambda>t. t = ''any'') (tsParamTypes a)) =
              length (filter (\<lambda>t. t = ''any'') (tsParamTypes b))
          \<and> length (signature a) = length (signature b) \<and> lc (signature b) (signature a) = 0
          \<and> lc (generic_proto a) (generic_proto b) = 0))
    \<and> (groupMethods methods n = Some bySig \<and> bySig s = Some a \<and> bySig s' = Some b
          \<and> signature a = signature b \<longrightarrow>
        a = b \<and> compareVariants lc a b = 0)
    \<and> ((\<forall>cn cd m e. classes this cn = Some cd \<and> variantsDict cd m = Some e \<longrightarrow> keyedBySignature e)
          \<and> mergeOverloadedVariants fuel this (groupMethods methods) directInterfaces = Inr (merged, this')
          \<and> merged n = Some bySig \<and> bySig s = Some a \<and> bySig s' = Some b
          \<and> signature a = signature b \<longrightarrow>
        a = b \<and> compareVariants lc a b = 0)
    \<and> (distinct (map signature constructors) \<and> a \<in> set constructors \<and> b \<in> set constructors
          \<and> signature a = signature b \<longrightarrow>
        a = b \<and> compareVariants lc a b = 0)"
proof -
  have r: "compareVariants lc x x = 0" for x
    unfolding compareVariants_zero using collation_refl[OF c] by simp
  have 1: "compareVariants lc a a = 0" by (rule r)
  have 2: "compareVariants lc a b < 0 \<longrightarrow> compareVariants lc b a > 0"
    using compareVariants_flip[OF c, of b a] by simp
  have 3: "compareVariants lc a b < 0 \<and> compareVariants lc b d < 0 \<longrightarrow> compareVariants lc a d < 0"
    using compareVariants_trans[OF c, of a b d] by blast
  have 4: "(\<not> compareVariants lc a b < 0 \<and> \<not> compareVariants lc b a < 0) = (compareVariants lc a b = 0)"
    using compareVariants_flip[OF c, of a b] by linarith
  have 5: "(compareVariants lc b a = 0) = (compareVariants lc a b = 0)"
    by (rule compareVariants_zero_sym[OF c])
  have 6: "compareVariants lc a b = 0 \<and> compareVariants lc b d = 0 \<longrightarrow> compareVariants lc a d = 0"
    using compareVariants_zero_trans[OF c, of a b d] by blast
  have 7: "(compareVariants lc a b = 0) =
         (length (paramTypes a) = length (paramTypes b)
          \<and> length (filter (\<lambda>t. t = ''any'') (tsParamTypes a)) =
              length (filter (\<lambda>t. t = ''any'') (tsParamTypes b))
          \<and> length (signature a) = length (signature b) \<and> lc (signature b) (signature a) = 0
          \<and> lc (generic_proto a) (generic_proto b) = 0)"
    using compareVariants_zero[of lc a b] unfolding countArgsOfTypeAny_def by blast
  have same: "a = b \<and> compareVariants lc a b = 0"
    if "keyedBySignature bySig" "bySig s = Some a" "bySig s' = Some b" "signature a = signature b"
  proof -
    from keyedBySignature_same[OF that] have "a = b" .
    with r show ?thesis by simp
  qed
  have 8: "groupMethods methods n = Some bySig \<and> bySig s = Some a \<and> bySig s' = Some b
          \<and> signature a = signature b \<longrightarrow>
        a = b \<and> compareVariants lc a b = 0"
  proof
    assume h: "groupMethods methods n = Some bySig \<and> bySig s = Some a \<and> bySig s' = Some b
          \<and> signature a = signature b"
    then have "keyedBySignature bySig" using groupMethods_keyed by blast
    with h same show "a = b \<and> compareVariants lc a b = 0" by blast
  qed
  have 9: "(\<forall>cn cd m e. classes this cn = Some cd \<and> variantsDict cd m = Some e \<longrightarrow> keyedBySignature e)
          \<and> mergeOverloadedVariants fuel this (groupMethods methods) directInterfaces = Inr (merged, this')
          \<and> merged n = Some bySig \<and> bySig s = Some a \<and> bySig s' = Some b
          \<and> signature a = signature b \<longrightarrow>
        a = b \<and> compareVariants lc a b = 0"
  proof
    assume h: "(\<forall>cn cd m e. classes this cn = Some cd \<and> variantsDict cd m = Some e \<longrightarrow> keyedBySignature e)
          \<and> mergeOverloadedVariants fuel this (groupMethods methods) directInterfaces = Inr (merged, this')
          \<and> merged n = Some bySig \<and> bySig s = Some a \<and> bySig s' = Some b
          \<and> signature a = signature b"
    then have t: "\<forall>cn cd m e. classes this cn = Some cd \<and> variantsDict cd m = Some e \<longrightarrow> keyedBySignature e"
      and call: "mergeOverloadedVariants fuel this (groupMethods methods) directInterfaces = Inr (merged, this')"
      and m: "merged n = Some bySig"
      and ab: "bySig s = Some a" "bySig s' = Some b" "signature a = signature b"
      by simp_all
    have v: "\<forall>n e. groupMethods methods n = Some e \<longrightarrow> keyedBySignature e"
      using groupMethods_keyed by blast
    from merge_keyed[OF t v call m] have "keyedBySignature bySig" .
    from same[OF this ab] show "a = b \<and> compareVariants lc a b = 0" .
  qed
  have 10: "distinct (map signature constructors) \<and> a \<in> set constructors \<and> b \<in> set constructors
          \<and> signature a = signature b \<longrightarrow>
        a = b \<and> compareVariants lc a b = 0"
  proof
    assume h: "distinct (map signature constructors) \<and> a \<in> set constructors \<and> b \<in> set constructors
          \<and> signature a = signature b"
    then have "inj_on signature (set constructors)" by (simp add: distinct_map)
    with h have "a = b" by (meson inj_onD)
    with r show "a = b \<and> compareVariants lc a b = 0" by simp
  qed
  from 1 2 3 4 5 6 7 8 9 10 show ?thesis by blast
qed

text \<open>
  The theorem at the three variants of \<^verbatim>\<open>size\<close>, under the comparison of code units:
  the one of \<^verbatim>\<open>List\<close> comes before the one of \<^verbatim>\<open>ArrayList\<close>, which comes before the one
  of \<^verbatim>\<open>Vector\<close>; at the dictionary of \<^verbatim>\<open>size\<close> that \<^verbatim>\<open>groupMethods\<close> builds for
  \<^verbatim>\<open>java.util.ArrayList\<close>; at the dictionary of \<^verbatim>\<open>add\<close> after the merge; and at a list of
  two variants of \<^verbatim>\<open>add\<close> with distinct signatures.
\<close>

theorem compareVariants_strict_weak_order_witness:
  "collation codeUnitCompare
   \<and> compareVariants codeUnitCompare size_List size_List = 0
   \<and> compareVariants codeUnitCompare size_List size_ArrayList < 0
   \<and> compareVariants codeUnitCompare size_ArrayList size_List > 0
   \<and> compareVariants codeUnitCompare size_ArrayList size_Vector < 0
   \<and> compareVariants codeUnitCompare size_List size_Vector < 0
   \<and> groupMethods [size_ArrayList, add_ArrayList] ''size'' = Some [''size()I'' \<mapsto> size_ArrayList]
   \<and> compareVariants codeUnitCompare size_ArrayList size_ArrayList = 0
   \<and> (\<exists>merged this' bySig.
         mergeOverloadedVariants 3 exampleMap (groupMethods [size_ArrayList, add_ArrayList])
           [''java.util.List''] = Inr (merged, this')
         \<and> merged ''add'' = Some bySig
         \<and> bySig ''add(Ljava/lang/Object;)Z'' = Some add_Collection
         \<and> compareVariants codeUnitCompare add_Collection add_Collection = 0)
   \<and> distinct (map signature [add_Collection, add_List_index])
   \<and> compareVariants codeUnitCompare add_List_index add_List_index = 0"
proof -
  note T = compareVariants_strict_weak_order[OF collation_codeUnitCompare]
  have ab: "compareVariants codeUnitCompare size_List size_ArrayList < 0"
    by (simp add: compareVariants_def countArgsOfTypeAny_def size_ArrayList_def size_List_def)
  have bd: "compareVariants codeUnitCompare size_ArrayList size_Vector < 0"
    by (simp add: compareVariants_def countArgsOfTypeAny_def size_ArrayList_def size_Vector_def)
  have 1: "compareVariants codeUnitCompare size_List size_List = 0"
    by (rule T[THEN conjunct1])
  have 2: "compareVariants codeUnitCompare size_ArrayList size_List > 0"
    using T[THEN conjunct2, THEN conjunct1, of size_List size_ArrayList] ab by simp
  have 3: "compareVariants codeUnitCompare size_List size_Vector < 0"
    using T[THEN conjunct2, THEN conjunct2, THEN conjunct1, of size_List size_ArrayList size_Vector]
      ab bd by simp
  have g: "groupMethods [size_ArrayList, add_ArrayList] ''size'' = Some [''size()I'' \<mapsto> size_ArrayList]"
    by (simp add: groupMethods_example ownVariants_def)
  have g8: "groupMethods [size_ArrayList, add_ArrayList] ''size'' = Some [''size()I'' \<mapsto> size_ArrayList]
      \<and> [''size()I'' \<mapsto> size_ArrayList] ''size()I'' = Some size_ArrayList
      \<and> [''size()I'' \<mapsto> size_ArrayList] ''size()I'' = Some size_ArrayList
      \<and> signature size_ArrayList = signature size_ArrayList"
    using g by simp
  have 4: "compareVariants codeUnitCompare size_ArrayList size_ArrayList = 0"
    using T[THEN conjunct2, THEN conjunct2, THEN conjunct2, THEN conjunct2, THEN conjunct2,
            THEN conjunct2, THEN conjunct2, THEN conjunct1, THEN mp, OF g8]
    by simp
  let ?bySig = "fold (assignInherited exampleClasses ''add'')
                  [''java.util.List'', ''java.util.Collection'', ''java.lang.Object'']
                  [''add(Ljava/lang/Object;)Z'' \<mapsto> add_ArrayList]"
  from example_merge obtain this' where
    m: "mergeOverloadedVariants 3 exampleMap ownVariants [''java.util.List''] =
      Inr (\<lambda>methodName.
             map_option
               (fold (assignInherited exampleClasses methodName)
                  [''java.util.List'', ''java.util.Collection'', ''java.lang.Object''])
               (ownVariants methodName),
           this')"
    by blast
  let ?merged = "\<lambda>methodName.
             map_option
               (fold (assignInherited exampleClasses methodName)
                  [''java.util.List'', ''java.util.Collection'', ''java.lang.Object''])
               (ownVariants methodName)"
  have m': "mergeOverloadedVariants 3 exampleMap (groupMethods [size_ArrayList, add_ArrayList])
              [''java.util.List''] = Inr (?merged, this')"
    using m unfolding groupMethods_example .
  have ma: "?merged ''add'' = Some ?bySig" by (simp add: ownVariants_def)
  have g9: "(\<forall>cn cd m e. classes exampleMap cn = Some cd \<and> variantsDict cd m = Some e \<longrightarrow>
                keyedBySignature e)
      \<and> mergeOverloadedVariants 3 exampleMap (groupMethods [size_ArrayList, add_ArrayList])
              [''java.util.List''] = Inr (?merged, this')
      \<and> ?merged ''add'' = Some ?bySig
      \<and> ?bySig ''add(Ljava/lang/Object;)Z'' = Some add_Collection
      \<and> ?bySig ''add(Ljava/lang/Object;)Z'' = Some add_Collection
      \<and> signature add_Collection = signature add_Collection"
    using exampleClasses_keyed m' ma example_merged_add by simp
  have 5: "compareVariants codeUnitCompare add_Collection add_Collection = 0"
    using T[THEN conjunct2, THEN conjunct2, THEN conjunct2, THEN conjunct2, THEN conjunct2,
            THEN conjunct2, THEN conjunct2, THEN conjunct2, THEN conjunct1, THEN mp, OF g9]
    by simp
  have 6: "\<exists>merged this' bySig.
         mergeOverloadedVariants 3 exampleMap (groupMethods [size_ArrayList, add_ArrayList])
           [''java.util.List''] = Inr (merged, this')
         \<and> merged ''add'' = Some bySig
         \<and> bySig ''add(Ljava/lang/Object;)Z'' = Some add_Collection
         \<and> compareVariants codeUnitCompare add_Collection add_Collection = 0"
    using m' ma example_merged_add 5 by blast
  have dd: "distinct (map signature [add_Collection, add_List_index])"
    by (simp add: add_Collection_def add_List_index_def)
  have g10: "distinct (map signature [add_Collection, add_List_index])
      \<and> add_List_index \<in> set [add_Collection, add_List_index]
      \<and> add_List_index \<in> set [add_Collection, add_List_index]
      \<and> signature add_List_index = signature add_List_index"
    using dd by simp
  have 7: "compareVariants codeUnitCompare add_List_index add_List_index = 0"
    using T[THEN conjunct2, THEN conjunct2, THEN conjunct2, THEN conjunct2, THEN conjunct2,
            THEN conjunct2, THEN conjunct2, THEN conjunct2, THEN conjunct2, THEN mp, OF g10]
    by simp
  from collation_codeUnitCompare 1 ab 2 bd 3 g 4 6 dd 7 show ?thesis by simp
qed

end
